theory Spec2Isabelle
  imports Complex_Main "HOL-Library.Word"
begin
unbundle bit_operations_syntax

section \<open>Single-precision values and their comparisons\<close>

text \<open>
  A \<^verbatim>\<open>float\<close> is its IEEE-754 binary32 bit pattern: the source itself reads the error of a
  collapse through the \<^verbatim>\<open>errorui\<close> member of a union. The comparisons of the language are
  defined on the bit pattern: a NaN (exponent all ones, non-zero mantissa) compares false
  with everything, and otherwise the order is that of the sign-magnitude reading, which
  identifies \<open>+0\<close> and \<open>-0\<close>.
\<close>

type_synonym float = "32 word"

definition float_is_nan :: "float \<Rightarrow> bool" where
  "float_is_nan f \<longleftrightarrow> 0x7F800000 < (f AND 0x7FFFFFFF)"

definition float_ord :: "float \<Rightarrow> int" where
  "float_ord f = (if bit f 31 then - uint (f AND 0x7FFFFFFF) else uint (f AND 0x7FFFFFFF))"

definition float_lt :: "float \<Rightarrow> float \<Rightarrow> bool" where
  "float_lt a b \<longleftrightarrow> \<not> float_is_nan a \<and> \<not> float_is_nan b \<and> float_ord a < float_ord b"

definition float_le :: "float \<Rightarrow> float \<Rightarrow> bool" where
  "float_le a b \<longleftrightarrow> \<not> float_is_nan a \<and> \<not> float_is_nan b \<and> float_ord a \<le> float_ord b"

definition float_gt :: "float \<Rightarrow> float \<Rightarrow> bool" where
  "float_gt a b \<longleftrightarrow> float_lt b a"

definition float_eq :: "float \<Rightarrow> float \<Rightarrow> bool" where
  "float_eq a b \<longleftrightarrow> \<not> float_is_nan a \<and> \<not> float_is_nan b \<and> float_ord a = float_ord b"

definition float_ge :: "float \<Rightarrow> float \<Rightarrow> bool" where
  "float_ge a b \<longleftrightarrow> float_le b a"

definition FLT_MAX :: float where
  "FLT_MAX = 0x7F7FFFFF"

text \<open>
  Arithmetic is IEEE-754 single precision with round-to-nearest-even, computed on exact
  rationals: \<open>float_mag\<close> is the magnitude of a finite value, \<open>float_round_mag\<close> rounds a
  non-negative rational to the nearest representable magnitude (overflowing to infinity),
  and each operation treats NaN, infinities and signed zeros first. The proofs below never
  unfold the arithmetic except where a claim is about a computed value.
\<close>

definition float_is_inf :: "float \<Rightarrow> bool" where
  "float_is_inf f \<longleftrightarrow> f AND 0x7FFFFFFF = 0x7F800000"

definition float_is_zero :: "float \<Rightarrow> bool" where
  "float_is_zero f \<longleftrightarrow> f AND 0x7FFFFFFF = 0"

definition float_sign :: "float \<Rightarrow> bool" where
  "float_sign f \<longleftrightarrow> bit f 31"

definition float_NaN :: float where
  "float_NaN = 0x7FC00000"

definition pow2 :: "int \<Rightarrow> rat" where
  "pow2 e = (if 0 \<le> e then 2 ^ nat e else 1 / 2 ^ nat (- e))"

definition float_mag :: "float \<Rightarrow> rat" where
  "float_mag f =
     (let e = unat (drop_bit 23 f AND 0xFF); m = unat (f AND 0x7FFFFF)
      in if e = 0 then of_nat m * pow2 (- 149)
         else of_nat (2 ^ 23 + m) * pow2 (int e - 150))"

definition float_val :: "float \<Rightarrow> rat" where
  "float_val f = (if float_sign f then - float_mag f else float_mag f)"

definition round_half_even :: "rat \<Rightarrow> int" where
  "round_half_even x =
     (let f = \<lfloor>x\<rfloor>; r = x - of_int f
      in if r < 1 / 2 then f else if 1 / 2 < r then f + 1 else if even f then f else f + 1)"

function float_exponent :: "int \<Rightarrow> rat \<Rightarrow> int" where
  "float_exponent e q = (if e \<le> - 126 \<or> pow2 e \<le> q then e else float_exponent (e - 1) q)"
  by pat_completeness auto
termination
  by (relation "measure (\<lambda>(e, q). nat (e + 126))") auto

declare float_exponent.simps [simp del]

definition float_round_mag :: "rat \<Rightarrow> float" where
  "float_round_mag q =
     (if q = 0 then 0
      else let e = float_exponent 128 q;
               m = round_half_even (q / pow2 (e - 23));
               bits = (e + 126) * 2 ^ 23 + m
           in if 0x7F800000 \<le> bits then 0x7F800000 else word_of_int bits)"

definition float_with_sign :: "bool \<Rightarrow> float \<Rightarrow> float" where
  "float_with_sign s f = (if s then f OR 0x80000000 else f AND 0x7FFFFFFF)"

definition float_round :: "rat \<Rightarrow> float" where
  "float_round q = float_with_sign (q < 0) (float_round_mag \<bar>q\<bar>)"

definition fneg :: "float \<Rightarrow> float" where
  "fneg a = a XOR 0x80000000"

definition fabsf :: "float \<Rightarrow> float" where
  "fabsf a = a AND 0x7FFFFFFF"

definition fadd :: "float \<Rightarrow> float \<Rightarrow> float" where
  "fadd a b =
     (if float_is_nan a \<or> float_is_nan b then float_NaN
      else if float_is_inf a then
        (if float_is_inf b \<and> float_sign a \<noteq> float_sign b then float_NaN else a)
      else if float_is_inf b then b
      else let r = float_val a + float_val b
           in if r = 0 then float_with_sign (float_sign a \<and> float_sign b) 0
              else float_round r)"

definition fsub :: "float \<Rightarrow> float \<Rightarrow> float" where
  "fsub a b = (if float_is_nan b then float_NaN else fadd a (fneg b))"

definition fmul :: "float \<Rightarrow> float \<Rightarrow> float" where
  "fmul a b =
     (let s = (float_sign a \<noteq> float_sign b)
      in if float_is_nan a \<or> float_is_nan b then float_NaN
         else if float_is_inf a \<or> float_is_inf b then
           (if float_is_zero a \<or> float_is_zero b then float_NaN
            else float_with_sign s 0x7F800000)
         else float_with_sign s (float_round_mag (float_mag a * float_mag b)))"

definition fdiv :: "float \<Rightarrow> float \<Rightarrow> float" where
  "fdiv a b =
     (let s = (float_sign a \<noteq> float_sign b)
      in if float_is_nan a \<or> float_is_nan b then float_NaN
         else if float_is_inf a then
           (if float_is_inf b then float_NaN else float_with_sign s 0x7F800000)
         else if float_is_inf b then float_with_sign s 0
         else if float_is_zero b then
           (if float_is_zero a then float_NaN else float_with_sign s 0x7F800000)
         else float_with_sign s (float_round_mag (float_mag a / float_mag b)))"

text \<open>
  The square root of a finite positive value: its magnitude scaled by \<open>2 ^ 358\<close> is an
  integer below \<open>2 ^ 486\<close>, whose integer square root (found bit by bit) carries more than
  the 24 significant bits; a non-zero remainder is recorded as a half, so that rounding
  decides as it would on the exact root.
\<close>

definition isqrt :: "int \<Rightarrow> int" where
  "isqrt n = fold (\<lambda>k r. if (r + 2 ^ k) * (r + 2 ^ k) \<le> n then r + 2 ^ k else r)
               (rev [0..<243]) 0"

definition sqrtf :: "float \<Rightarrow> float" where
  "sqrtf a =
     (if float_is_nan a then float_NaN
      else if float_is_zero a then a
      else if float_sign a then float_NaN
      else if float_is_inf a then a
      else let n = \<lfloor>float_mag a * pow2 298\<rfloor>;
               N = n * 2 ^ 60;
               r = isqrt N;
               q = (of_int r + (if r * r = N then 0 else 1 / 2)) * pow2 (- 179)
           in float_round_mag q)"

text \<open>
  The conversion \<^verbatim>\<open>int(f)\<close> truncates towards zero. For NaN, infinities and values outside
  the range of \<^verbatim>\<open>int\<close> the language leaves the result undefined; the model returns the
  value \<open>- 2 ^ 31\<close> that x86 conversions produce.
\<close>

definition float_to_int :: "float \<Rightarrow> int" where
  "float_to_int a =
     (if float_is_nan a \<or> float_is_inf a then - (2 ^ 31)
      else let t = (if float_sign a then - \<lfloor>float_mag a\<rfloor> else \<lfloor>float_mag a\<rfloor>)
           in if - (2 ^ 31) \<le> t \<and> t < 2 ^ 31 then t else - (2 ^ 31))"

section \<open>Hash tables with quadratic probing\<close>

text \<open>
  \<^verbatim>\<open>hashLookup2\<close> is a template over the element type and the hasher. The table is a
  list, a pointer into it is the index of the slot, and the null pointer returned after
  the \<^verbatim>\<open>assert(false && "Hash table is full")\<close> is \<open>None\<close>. The element comparison
  \<^verbatim>\<open>item == empty\<close> and the hasher's \<^verbatim>\<open>equal\<close> are parameters, \<^verbatim>\<open>size_t\<close> values are
  natural numbers.
\<close>

function hashLookup2_loop ::
  "'a list \<Rightarrow> nat \<Rightarrow> ('a \<Rightarrow> 'a \<Rightarrow> bool) \<Rightarrow> ('a \<Rightarrow> 'a \<Rightarrow> bool) \<Rightarrow> 'a \<Rightarrow> 'a \<Rightarrow> nat \<Rightarrow> nat \<Rightarrow> nat option" where
  "hashLookup2_loop table hashmod eqv equalf key emptyv bucket probe =
     (if probe \<le> hashmod then
        (let item = table ! bucket in
         if eqv item emptyv then Some bucket
         else if equalf item key then Some bucket
         else hashLookup2_loop table hashmod eqv equalf key emptyv
                ((bucket + probe + 1) AND hashmod) (probe + 1))
      else None)"
  by pat_completeness auto
termination
  by (relation "measure (\<lambda>(table, hashmod, eqv, equalf, key, emptyv, bucket, probe). hashmod + 1 - probe)") auto

declare hashLookup2_loop.simps [simp del]

definition hashLookup2 ::
  "'a list \<Rightarrow> nat \<Rightarrow> ('a \<Rightarrow> nat) \<Rightarrow> ('a \<Rightarrow> 'a \<Rightarrow> bool) \<Rightarrow> ('a \<Rightarrow> 'a \<Rightarrow> bool) \<Rightarrow> 'a \<Rightarrow> 'a \<Rightarrow> nat option" where
  "hashLookup2 table buckets hash eqv equalf key emptyv =
     (let hashmod = buckets - 1;
          bucket = hash key AND hashmod
      in hashLookup2_loop table hashmod eqv equalf key emptyv bucket 0)"

text \<open>Auxiliary notions for the probe sequence: triangular numbers, and the bucket
  that the loop inspects at probe \<open>k\<close> when it starts from bucket \<open>start\<close>.\<close>

definition tri :: "nat \<Rightarrow> nat" where "tri k = k * (k + 1) div 2"

definition probe_bucket :: "nat \<Rightarrow> nat \<Rightarrow> nat \<Rightarrow> nat" where
  "probe_bucket hashmod start k = foldl (\<lambda>b p. (b + p + 1) AND hashmod) start [0..<k]"

section \<open>Collapse records and their radix sort\<close>

text \<open>
  The third member of \<^verbatim>\<open>Collapse\<close> is a union of \<^verbatim>\<open>bidi\<close>, \<^verbatim>\<open>error\<close> and \<^verbatim>\<open>errorui\<close>: one
  32-bit word, read as a flag by \<^verbatim>\<open>rankEdgeCollapses\<close> and as a float afterwards.
\<close>

record Collapse =
  v0 :: nat
  v1 :: nat
  errorui :: "32 word"

text \<open>
  \<^verbatim>\<open>sortEdgeCollapses\<close>: the three loops of the source are \<open>histogram_fill\<close>,
  \<open>histogram_offsets\<close> and \<open>sort_scatter\<close>. The histogram entries and the entries of
  \<^verbatim>\<open>sort_order\<close> are \<^verbatim>\<open>unsigned int\<close>, so every store is reduced modulo \<open>2 ^ 32\<close>.
  \<^verbatim>\<open>sort_order\<close> is passed in with the contents it has before the call.
\<close>

definition sort_bits :: nat where
  "sort_bits = 11"

definition collapse_key :: "Collapse \<Rightarrow> nat" where
  "collapse_key c = unat (drop_bit (32 - sort_bits) (push_bit 1 (errorui c)))"

definition histogram_fill :: "Collapse list \<Rightarrow> nat \<Rightarrow> nat list" where
  "histogram_fill collapses collapse_count =
     fold (\<lambda>i histogram.
             let key = collapse_key (collapses ! i)
             in histogram[key := (histogram ! key + 1) mod 2 ^ 32])
       [0..<collapse_count] (replicate (2 ^ sort_bits) 0)"

definition histogram_offsets :: "nat list \<Rightarrow> nat list \<times> nat" where
  "histogram_offsets histogram =
     fold (\<lambda>i (histogram, histogram_sum).
             let count = histogram ! i
             in (histogram[i := histogram_sum mod 2 ^ 32], histogram_sum + count))
       [0..<2 ^ sort_bits] (histogram, 0)"

definition sort_scatter :: "Collapse list \<Rightarrow> nat \<Rightarrow> nat list \<times> nat list \<Rightarrow> nat list \<times> nat list" where
  "sort_scatter collapses collapse_count =
     fold (\<lambda>i (sort_order, histogram).
             let key = collapse_key (collapses ! i)
             in (sort_order[histogram ! key := i mod 2 ^ 32],
                 histogram[key := (histogram ! key + 1) mod 2 ^ 32]))
       [0..<collapse_count]"

definition sortEdgeCollapses :: "nat list \<Rightarrow> Collapse list \<Rightarrow> nat \<Rightarrow> nat list" where
  "sortEdgeCollapses sort_order collapses collapse_count =
     (let histogram = histogram_fill collapses collapse_count;
          (histogram, histogram_sum) = histogram_offsets histogram
      in fst (sort_scatter collapses collapse_count (sort_order, histogram)))"

text \<open>
  For the proofs: \<open>key_before cs l i\<close> says that record \<open>l\<close> precedes record \<open>i\<close> in the
  order by radix key and then by input position; \<open>sort_pos cs n i\<close> is the rank of \<open>i\<close>
  in this order among the first \<open>n\<close> records.
\<close>

definition key_before :: "Collapse list \<Rightarrow> nat \<Rightarrow> nat \<Rightarrow> bool" where
  "key_before cs l i \<longleftrightarrow>
     collapse_key (cs ! l) < collapse_key (cs ! i) \<or>
     (collapse_key (cs ! l) = collapse_key (cs ! i) \<and> l < i)"

definition sort_pos :: "Collapse list \<Rightarrow> nat \<Rightarrow> nat \<Rightarrow> nat" where
  "sort_pos cs n i = card {l. l < n \<and> key_before cs l i}"

section \<open>Arrays, indices and scratch memory\<close>

text \<open>
  Arrays are lists and \<^verbatim>\<open>unsigned int\<close> indices are natural numbers; the sentinel \<^verbatim>\<open>~0u\<close> is
  \<open>UINT_MAX\<close>. The entry points are meant for meshes whose counts fit \<^verbatim>\<open>unsigned int\<close>
  (the source casts every loop counter with \<^verbatim>\<open>unsigned(i)\<close>), which \<open>valid_mesh\<close> records
  together with the asserted preconditions on the index buffer. Memory returned by the
  allocator is not initialised: its contents are a parameter (\<open>scratch\<close>) of the entry
  points, and \<open>allocate\<close> cuts an array of the requested size out of it.
\<close>

definition UINT_MAX :: nat where
  "UINT_MAX = 4294967295"

definition valid_mesh :: "nat list \<Rightarrow> nat \<Rightarrow> nat \<Rightarrow> bool" where
  "valid_mesh indices index_count vertex_count \<longleftrightarrow>
     index_count mod 3 = 0 \<and> index_count \<le> length indices \<and>
     (\<forall>i<index_count. indices ! i < vertex_count) \<and>
     vertex_count < 2 ^ 32 \<and> index_count < 2 ^ 32"

datatype VertexKind = Kind_Manifold | Kind_Border | Kind_Seam | Kind_Locked

record scratch =
  fresh_uint :: "nat \<Rightarrow> nat"
  fresh_kind :: "nat \<Rightarrow> VertexKind"
  fresh_float :: "nat \<Rightarrow> float"

definition allocate :: "(nat \<Rightarrow> 'a) \<Rightarrow> nat \<Rightarrow> 'a list" where
  "allocate fresh count = map fresh [0..<count]"

text \<open>A loop whose body can fail (a null pointer is dereferenced, an inner loop does not
  return) is a fold in the option monad.\<close>

fun fold_option :: "('a \<Rightarrow> 's \<Rightarrow> 's option) \<Rightarrow> 'a list \<Rightarrow> 's \<Rightarrow> 's option" where
  "fold_option f [] s = Some s"
| "fold_option f (x # xs) s = (case f x s of None \<Rightarrow> None | Some s' \<Rightarrow> fold_option f xs s')"

text \<open>The loops \<^verbatim>\<open>for (i = 0; i < index_count; i += 3)\<close> visit these offsets.\<close>

definition triangle_starts :: "nat \<Rightarrow> nat list" where
  "triangle_starts index_count = map (\<lambda>k. 3 * k) [0..<(index_count + 2) div 3]"

section \<open>Edge adjacency\<close>

record EdgeAdjacency =
  counts :: "nat list"
  offsets :: "nat list"
  data :: "nat list"

text \<open>
  \<^verbatim>\<open>buildEdgeAdjacency\<close>: the four loops of the source in order. \<^verbatim>\<open>counts\<close> is cleared by
  \<^verbatim>\<open>memset\<close>; \<^verbatim>\<open>offsets\<close> and \<^verbatim>\<open>data\<close> start from uninitialised memory.
\<close>

definition adjacency_counts :: "nat list \<Rightarrow> nat \<Rightarrow> nat \<Rightarrow> nat list" where
  "adjacency_counts indices index_count vertex_count =
     fold (\<lambda>i cs. cs[indices ! i := cs ! (indices ! i) + 1])
       [0..<index_count] (replicate vertex_count 0)"

definition adjacency_offsets :: "nat list \<Rightarrow> nat list \<Rightarrow> nat \<Rightarrow> nat list \<times> nat" where
  "adjacency_offsets cs os vertex_count =
     fold (\<lambda>i (os, offset). (os[i := offset], offset + cs ! i)) [0..<vertex_count] (os, 0)"

definition adjacency_face :: "nat list \<Rightarrow> nat \<Rightarrow> nat list \<times> nat list \<Rightarrow> nat list \<times> nat list" where
  "adjacency_face indices i =
     (\<lambda>(os, ds).
        let a = indices ! (i * 3 + 0); b = indices ! (i * 3 + 1); c = indices ! (i * 3 + 2);
            ds = ds[os ! a := b]; os = os[a := os ! a + 1];
            ds = ds[os ! b := c]; os = os[b := os ! b + 1];
            ds = ds[os ! c := a]; os = os[c := os ! c + 1]
        in (os, ds))"

definition adjacency_fill :: "nat list \<Rightarrow> nat \<Rightarrow> nat list \<times> nat list \<Rightarrow> nat list \<times> nat list" where
  "adjacency_fill indices face_count = fold (adjacency_face indices) [0..<face_count]"

definition buildEdgeAdjacency :: "scratch \<Rightarrow> nat list \<Rightarrow> nat \<Rightarrow> nat \<Rightarrow> EdgeAdjacency" where
  "buildEdgeAdjacency mem indices index_count vertex_count =
     (let face_count = index_count div 3;
          cs = adjacency_counts indices index_count vertex_count;
          (os, offset) = adjacency_offsets cs (allocate (fresh_uint mem) vertex_count) vertex_count;
          (os, ds) = adjacency_fill indices face_count (os, allocate (fresh_uint mem) index_count);
          os = fold (\<lambda>i os. os[i := os ! i - cs ! i]) [0..<vertex_count] os
      in \<lparr>counts = cs, offsets = os, data = ds\<rparr>)"

definition hasEdge :: "EdgeAdjacency \<Rightarrow> nat \<Rightarrow> nat \<Rightarrow> bool" where
  "hasEdge adjacency a b =
     list_ex (\<lambda>i. data adjacency ! (offsets adjacency ! a + i) = b) [0..<counts adjacency ! a]"

text \<open>The \<^verbatim>\<open>do ... while\<close> loop of \<^verbatim>\<open>findWedgeEdge\<close> returns only if the walk along \<^verbatim>\<open>wedge\<close>
  finds the edge or comes back to its start: \<open>None\<close> is a walk that never ends.\<close>

partial_function (option) findWedgeEdge_loop ::
  "EdgeAdjacency \<Rightarrow> nat list \<Rightarrow> nat \<Rightarrow> nat \<Rightarrow> nat \<Rightarrow> nat option" where
  "findWedgeEdge_loop adjacency wedge a b v =
     (if hasEdge adjacency v b then Some v
      else let v' = wedge ! v
           in if v' \<noteq> a then findWedgeEdge_loop adjacency wedge a b v' else Some UINT_MAX)"

definition findWedgeEdge :: "EdgeAdjacency \<Rightarrow> nat list \<Rightarrow> nat \<Rightarrow> nat \<Rightarrow> nat option" where
  "findWedgeEdge adjacency wedge a b = findWedgeEdge_loop adjacency wedge a b a"

text \<open>\<^verbatim>\<open>countOpenEdges\<close> returns the count and the value left in \<^verbatim>\<open>*last\<close>.\<close>

definition count_open_edge :: "EdgeAdjacency \<Rightarrow> nat \<Rightarrow> nat \<Rightarrow> nat \<times> nat \<Rightarrow> nat \<times> nat" where
  "count_open_edge adjacency vertex i =
     (\<lambda>(result, last).
        let d = data adjacency ! (offsets adjacency ! vertex + i)
        in if \<not> hasEdge adjacency d vertex then (result + 1, d) else (result, last))"

definition countOpenEdges :: "EdgeAdjacency \<Rightarrow> nat \<Rightarrow> nat \<Rightarrow> nat \<times> nat" where
  "countOpenEdges adjacency vertex last0 =
     fold (count_open_edge adjacency vertex) [0..<counts adjacency ! vertex] (0, last0)"

section \<open>Position remap and wedge ring\<close>

definition murmur_round :: "32 word \<Rightarrow> 32 word \<Rightarrow> 32 word" where
  "murmur_round h k0 =
     (let m = 0x5bd1e995;
          k = k0 * m;
          k = k XOR drop_bit 24 k;
          k = k * m;
          h = h * m
      in h XOR k)"

definition PositionHasher_hash :: "float list \<Rightarrow> nat \<Rightarrow> nat \<Rightarrow> nat" where
  "PositionHasher_hash vertex_positions vertex_stride_float index =
     unat (fold (\<lambda>i h. murmur_round h (vertex_positions ! (index * vertex_stride_float + i)))
             [0..<3] 0)"

definition PositionHasher_equal :: "float list \<Rightarrow> nat \<Rightarrow> nat \<Rightarrow> nat \<Rightarrow> bool" where
  "PositionHasher_equal vertex_positions vertex_stride_float lhs rhs \<longleftrightarrow>
     map (\<lambda>i. vertex_positions ! (lhs * vertex_stride_float + i)) [0..<3] =
     map (\<lambda>i. vertex_positions ! (rhs * vertex_stride_float + i)) [0..<3]"

text \<open>\<^verbatim>\<open>hashBuckets2\<close> doubles until the count is reached; \<open>None\<close> is a loop that never ends.\<close>

partial_function (option) hashBuckets2_loop :: "nat \<Rightarrow> nat \<Rightarrow> nat option" where
  "hashBuckets2_loop buckets count =
     (if buckets < count then hashBuckets2_loop (buckets * 2) count else Some buckets)"

definition hashBuckets2 :: "nat \<Rightarrow> nat option" where
  "hashBuckets2 count = hashBuckets2_loop 1 count"

definition position_remap_step ::
  "float list \<Rightarrow> nat \<Rightarrow> nat \<Rightarrow> nat \<Rightarrow> nat list \<times> nat list \<Rightarrow> (nat list \<times> nat list) option" where
  "position_remap_step vertex_positions vertex_stride_float table_size index =
     (\<lambda>(table, remap).
        case hashLookup2 table table_size (PositionHasher_hash vertex_positions vertex_stride_float)
               (=) (PositionHasher_equal vertex_positions vertex_stride_float) index UINT_MAX of
          None \<Rightarrow> None
        | Some entry \<Rightarrow>
            let table = (if table ! entry = UINT_MAX then table[entry := index] else table)
            in Some (table, remap[index := table ! entry]))"

definition wedge_splice :: "nat list \<Rightarrow> nat \<Rightarrow> nat list \<Rightarrow> nat list" where
  "wedge_splice remap i wedge =
     (if remap ! i \<noteq> i then
        let r = remap ! i; wedge = wedge[i := wedge ! r] in wedge[r := i]
      else wedge)"

definition buildPositionRemap ::
  "nat list \<Rightarrow> float list \<Rightarrow> nat \<Rightarrow> nat \<Rightarrow> (nat list \<times> nat list) option" where
  "buildPositionRemap remap vertex_positions_data vertex_count vertex_positions_stride =
     (let vertex_stride_float = vertex_positions_stride div 4
      in case hashBuckets2 vertex_count of
           None \<Rightarrow> None
         | Some table_size \<Rightarrow>
            (case fold_option (position_remap_step vertex_positions_data vertex_stride_float table_size)
                    [0..<vertex_count] (replicate table_size UINT_MAX, remap) of
               None \<Rightarrow> None
             | Some (table, remap) \<Rightarrow>
                 Some (remap, fold (wedge_splice remap) [0..<vertex_count] [0..<vertex_count])))"

section \<open>Vertex classification\<close>

fun kCanCollapse :: "VertexKind \<Rightarrow> VertexKind \<Rightarrow> bool" where
  "kCanCollapse Kind_Manifold k1 = True"
| "kCanCollapse Kind_Border k1 = (k1 = Kind_Border)"
| "kCanCollapse Kind_Seam k1 = (k1 = Kind_Seam)"
| "kCanCollapse Kind_Locked k1 = False"

fun kHasOpposite :: "VertexKind \<Rightarrow> VertexKind \<Rightarrow> bool" where
  "kHasOpposite Kind_Manifold k1 = True"
| "kHasOpposite Kind_Border k1 = (k1 = Kind_Manifold \<or> k1 = Kind_Seam)"
| "kHasOpposite Kind_Seam k1 = True"
| "kHasOpposite Kind_Locked k1 = (k1 = Kind_Manifold \<or> k1 = Kind_Seam)"

definition classify_vertex ::
  "EdgeAdjacency \<Rightarrow> nat list \<Rightarrow> nat list \<Rightarrow> nat \<Rightarrow> VertexKind list \<times> nat list \<Rightarrow>
     (VertexKind list \<times> nat list) option" where
  "classify_vertex adjacency remap wedge i =
     (\<lambda>(result, loop).
        if remap ! i = i then
          if wedge ! i = i then
            let (edges, v) = countOpenEdges adjacency i 0
            in if edges = 0 then Some (result[i := Kind_Manifold], loop)
               else if edges = 1 then Some (result[i := Kind_Border], loop[i := v])
               else Some (result[i := Kind_Locked], loop)
          else if wedge ! (wedge ! i) = i then
            let (a_count, a) = countOpenEdges adjacency i 0;
                (b_count, b) = countOpenEdges adjacency (wedge ! i) 0
            in if a_count = 1 \<and> b_count = 1 then
                 (case findWedgeEdge adjacency wedge a (wedge ! i) of
                    None \<Rightarrow> None
                  | Some ao \<Rightarrow>
                     (case findWedgeEdge adjacency wedge b i of
                        None \<Rightarrow> None
                      | Some bo \<Rightarrow>
                          if ao \<noteq> UINT_MAX \<and> bo \<noteq> UINT_MAX then
                            Some (result[i := Kind_Seam], (loop[i := a])[wedge ! i := b])
                          else Some (result[i := Kind_Locked], loop)))
               else Some (result[i := Kind_Locked], loop)
          else Some (result[i := Kind_Locked], loop)
        else Some (result[i := result ! (remap ! i)], loop))"

definition classifyVertices ::
  "VertexKind list \<Rightarrow> nat \<Rightarrow> EdgeAdjacency \<Rightarrow> nat list \<Rightarrow> nat list \<Rightarrow>
     (VertexKind list \<times> nat list) option" where
  "classifyVertices result vertex_count adjacency remap wedge =
     fold_option (classify_vertex adjacency remap wedge) [0..<vertex_count]
       (result, replicate vertex_count UINT_MAX)"

section \<open>Positions and quadrics\<close>

record Vector3 =
  vx :: float
  vy :: float
  vz :: float

text \<open>
  \<^verbatim>\<open>rescalePositions\<close>. The position stream is the flat array of floats with its stride in
  floats. The three parts of the function are the minimum and maximum per axis, the scale,
  and the rescaled positions. \<open>0x3F800000\<close> is \<open>1.0f\<close>.
\<close>

definition position_at :: "float list \<Rightarrow> nat \<Rightarrow> nat \<Rightarrow> Vector3" where
  "position_at vertex_positions_data vertex_stride_float i =
     \<lparr>vx = vertex_positions_data ! (i * vertex_stride_float + 0),
      vy = vertex_positions_data ! (i * vertex_stride_float + 1),
      vz = vertex_positions_data ! (i * vertex_stride_float + 2)\<rparr>"

definition select_min :: "float \<Rightarrow> float \<Rightarrow> float" where
  "select_min m v = (if float_gt m v then v else m)"

definition select_max :: "float \<Rightarrow> float \<Rightarrow> float" where
  "select_max m v = (if float_lt m v then v else m)"

definition positions_bounds :: "float list \<Rightarrow> nat \<Rightarrow> nat \<Rightarrow> Vector3 \<times> Vector3" where
  "positions_bounds vertex_positions_data vertex_count vertex_stride_float =
     fold (\<lambda>i (minv, maxv).
             let v = position_at vertex_positions_data vertex_stride_float i
             in (\<lparr>vx = select_min (vx minv) (vx v), vy = select_min (vy minv) (vy v),
                  vz = select_min (vz minv) (vz v)\<rparr>,
                 \<lparr>vx = select_max (vx maxv) (vx v), vy = select_max (vy maxv) (vy v),
                  vz = select_max (vz maxv) (vz v)\<rparr>))
       [0..<vertex_count]
       (\<lparr>vx = FLT_MAX, vy = FLT_MAX, vz = FLT_MAX\<rparr>,
        \<lparr>vx = fneg FLT_MAX, vy = fneg FLT_MAX, vz = fneg FLT_MAX\<rparr>)"

definition select_extent :: "float \<Rightarrow> float \<Rightarrow> float" where
  "select_extent extent d = (if float_lt d extent then extent else d)"

definition positions_scale :: "Vector3 \<Rightarrow> Vector3 \<Rightarrow> float" where
  "positions_scale minv maxv =
     (let extent = 0;
          extent = select_extent extent (fsub (vx maxv) (vx minv));
          extent = select_extent extent (fsub (vy maxv) (vy minv));
          extent = select_extent extent (fsub (vz maxv) (vz minv))
      in if float_eq extent 0 then 0 else fdiv 0x3F800000 extent)"

definition rescalePositions :: "float list \<Rightarrow> nat \<Rightarrow> nat \<Rightarrow> Vector3 list" where
  "rescalePositions vertex_positions_data vertex_count vertex_positions_stride =
     (let vertex_stride_float = vertex_positions_stride div 4;
          (minv, maxv) = positions_bounds vertex_positions_data vertex_count vertex_stride_float;
          scale = positions_scale minv maxv
      in map (\<lambda>i. let v = position_at vertex_positions_data vertex_stride_float i
                  in \<lparr>vx = fmul (fsub (vx v) (vx minv)) scale,
                      vy = fmul (fsub (vy v) (vy minv)) scale,
                      vz = fmul (fsub (vz v) (vz minv)) scale\<rparr>)
           [0..<vertex_count])"

record Quadric =
  a00 :: float
  a10 :: float
  a11 :: float
  a20 :: float
  a21 :: float
  a22 :: float
  b0 :: float
  b1 :: float
  b2 :: float
  cc :: float

definition quadric_zero :: Quadric where
  "quadric_zero = \<lparr>a00 = 0, a10 = 0, a11 = 0, a20 = 0, a21 = 0, a22 = 0,
                    b0 = 0, b1 = 0, b2 = 0, cc = 0\<rparr>"

text \<open>\<^verbatim>\<open>normalize\<close> returns the length and the vector it leaves in place.\<close>

definition normalize :: "Vector3 \<Rightarrow> float \<times> Vector3" where
  "normalize v =
     (let length = sqrtf (fadd (fadd (fmul (vx v) (vx v)) (fmul (vy v) (vy v))) (fmul (vz v) (vz v)))
      in if float_gt length 0 then
           (length, \<lparr>vx = fdiv (vx v) length, vy = fdiv (vy v) length, vz = fdiv (vz v) length\<rparr>)
         else (length, v))"

definition quadricAdd :: "Quadric \<Rightarrow> Quadric \<Rightarrow> Quadric" where
  "quadricAdd Q R =
     \<lparr>a00 = fadd (a00 Q) (a00 R), a10 = fadd (a10 Q) (a10 R), a11 = fadd (a11 Q) (a11 R),
      a20 = fadd (a20 Q) (a20 R), a21 = fadd (a21 Q) (a21 R), a22 = fadd (a22 Q) (a22 R),
      b0 = fadd (b0 Q) (b0 R), b1 = fadd (b1 Q) (b1 R), b2 = fadd (b2 Q) (b2 R),
      cc = fadd (cc Q) (cc R)\<rparr>"

definition quadricMul :: "Quadric \<Rightarrow> float \<Rightarrow> Quadric" where
  "quadricMul Q s =
     \<lparr>a00 = fmul (a00 Q) s, a10 = fmul (a10 Q) s, a11 = fmul (a11 Q) s,
      a20 = fmul (a20 Q) s, a21 = fmul (a21 Q) s, a22 = fmul (a22 Q) s,
      b0 = fmul (b0 Q) s, b1 = fmul (b1 Q) s, b2 = fmul (b2 Q) s,
      cc = fmul (cc Q) s\<rparr>"

definition quadricError :: "Quadric \<Rightarrow> Vector3 \<Rightarrow> float" where
  "quadricError Q v =
     (let rx = b0 Q; ry = b1 Q; rz = b2 Q;
          rx = fadd rx (fmul (a10 Q) (vy v));
          ry = fadd ry (fmul (a21 Q) (vz v));
          rz = fadd rz (fmul (a20 Q) (vx v));
          rx = fmul rx 0x40000000;
          ry = fmul ry 0x40000000;
          rz = fmul rz 0x40000000;
          rx = fadd rx (fmul (a00 Q) (vx v));
          ry = fadd ry (fmul (a11 Q) (vy v));
          rz = fadd rz (fmul (a22 Q) (vz v));
          r = cc Q;
          r = fadd r (fmul rx (vx v));
          r = fadd r (fmul ry (vy v));
          r = fadd r (fmul rz (vz v))
      in fabsf r)"

definition quadricFromPlane :: "float \<Rightarrow> float \<Rightarrow> float \<Rightarrow> float \<Rightarrow> Quadric" where
  "quadricFromPlane a b c d =
     \<lparr>a00 = fmul a a, a10 = fmul b a, a11 = fmul b b,
      a20 = fmul c a, a21 = fmul c b, a22 = fmul c c,
      b0 = fmul d a, b1 = fmul d b, b2 = fmul d c, cc = fmul d d\<rparr>"

definition quadricFromTriangle :: "Vector3 \<Rightarrow> Vector3 \<Rightarrow> Vector3 \<Rightarrow> Quadric" where
  "quadricFromTriangle p0 p1 p2 =
     (let p10 = \<lparr>vx = fsub (vx p1) (vx p0), vy = fsub (vy p1) (vy p0), vz = fsub (vz p1) (vz p0)\<rparr>;
          p20 = \<lparr>vx = fsub (vx p2) (vx p0), vy = fsub (vy p2) (vy p0), vz = fsub (vz p2) (vz p0)\<rparr>;
          normal0 = \<lparr>vx = fsub (fmul (vy p10) (vz p20)) (fmul (vz p10) (vy p20)),
                     vy = fsub (fmul (vz p10) (vx p20)) (fmul (vx p10) (vz p20)),
                     vz = fsub (fmul (vx p10) (vy p20)) (fmul (vy p10) (vx p20))\<rparr>;
          (area, normal) = normalize normal0;
          distance = fadd (fadd (fmul (vx normal) (vx p0)) (fmul (vy normal) (vy p0)))
                       (fmul (vz normal) (vz p0));
          Q = quadricFromPlane (vx normal) (vy normal) (vz normal) (fneg distance)
      in quadricMul Q area)"

definition quadricFromTriangleEdge :: "Vector3 \<Rightarrow> Vector3 \<Rightarrow> Vector3 \<Rightarrow> float \<Rightarrow> Quadric" where
  "quadricFromTriangleEdge p0 p1 p2 weight =
     (let p10' = \<lparr>vx = fsub (vx p1) (vx p0), vy = fsub (vy p1) (vy p0), vz = fsub (vz p1) (vz p0)\<rparr>;
          (length, p10) = normalize p10';
          p20 = \<lparr>vx = fsub (vx p2) (vx p0), vy = fsub (vy p2) (vy p0), vz = fsub (vz p2) (vz p0)\<rparr>;
          p20p = fadd (fadd (fmul (vx p20) (vx p10)) (fmul (vy p20) (vy p10)))
                   (fmul (vz p20) (vz p10));
          normal0 = \<lparr>vx = fsub (vx p20) (fmul (vx p10) p20p),
                     vy = fsub (vy p20) (fmul (vy p10) p20p),
                     vz = fsub (vz p20) (fmul (vz p10) p20p)\<rparr>;
          (nlen, normal) = normalize normal0;
          distance = fadd (fadd (fmul (vx normal) (vx p0)) (fmul (vy normal) (vy p0)))
                       (fmul (vz normal) (vz p0));
          Q = quadricFromPlane (vx normal) (vy normal) (vz normal) (fneg distance)
      in quadricMul Q (fmul (fmul length length) weight))"

definition add_face_quadric ::
  "nat list \<Rightarrow> Vector3 list \<Rightarrow> nat list \<Rightarrow> nat \<Rightarrow> Quadric list \<Rightarrow> Quadric list" where
  "add_face_quadric indices vertex_positions remap i qs =
     (let i0 = indices ! (i + 0); i1 = indices ! (i + 1); i2 = indices ! (i + 2);
          Q = quadricFromTriangle (vertex_positions ! i0) (vertex_positions ! i1)
                (vertex_positions ! i2);
          qs = qs[remap ! i0 := quadricAdd (qs ! (remap ! i0)) Q];
          qs = qs[remap ! i1 := quadricAdd (qs ! (remap ! i1)) Q]
      in qs[remap ! i2 := quadricAdd (qs ! (remap ! i2)) Q])"

definition fillFaceQuadrics ::
  "Quadric list \<Rightarrow> nat list \<Rightarrow> nat \<Rightarrow> Vector3 list \<Rightarrow> nat list \<Rightarrow> Quadric list" where
  "fillFaceQuadrics vertex_quadrics indices index_count vertex_positions remap =
     fold (add_face_quadric indices vertex_positions remap) (triangle_starts index_count)
       vertex_quadrics"

definition next3 :: "nat \<Rightarrow> nat" where
  "next3 e = [1, 2, 0] ! e"

text \<open>\<open>0x3F800000\<close> is \<^verbatim>\<open>kEdgeWeightSeam = 1.f\<close> and \<open>0x41200000\<close> is
  \<^verbatim>\<open>kEdgeWeightBorder = 10.f\<close>.\<close>

definition add_edge_quadric ::
  "nat list \<Rightarrow> Vector3 list \<Rightarrow> nat list \<Rightarrow> VertexKind list \<Rightarrow> nat list \<Rightarrow> nat \<Rightarrow> nat \<Rightarrow>
     Quadric list \<Rightarrow> Quadric list" where
  "add_edge_quadric indices vertex_positions remap vertex_kind loop i e qs =
     (let i0 = indices ! (i + e); i1 = indices ! (i + next3 e);
          k0 = vertex_kind ! i0; k1 = vertex_kind ! i1
      in if k0 \<noteq> k1 \<or> (k0 \<noteq> Kind_Border \<and> k0 \<noteq> Kind_Seam) \<or> loop ! i0 \<noteq> i1 then qs
         else let i2 = indices ! (i + next3 (next3 e));
                  edgeWeight = (if k0 = Kind_Seam then 0x3F800000 else 0x41200000);
                  Q = quadricFromTriangleEdge (vertex_positions ! i0) (vertex_positions ! i1)
                        (vertex_positions ! i2) edgeWeight;
                  qs = qs[remap ! i0 := quadricAdd (qs ! (remap ! i0)) Q]
              in qs[remap ! i1 := quadricAdd (qs ! (remap ! i1)) Q])"

definition fillEdgeQuadrics ::
  "Quadric list \<Rightarrow> nat list \<Rightarrow> nat \<Rightarrow> Vector3 list \<Rightarrow> nat list \<Rightarrow> VertexKind list \<Rightarrow>
     nat list \<Rightarrow> Quadric list" where
  "fillEdgeQuadrics vertex_quadrics indices index_count vertex_positions remap vertex_kind loop =
     fold (\<lambda>i. fold (add_edge_quadric indices vertex_positions remap vertex_kind loop i) [0..<3])
       (triangle_starts index_count) vertex_quadrics"

section \<open>The collapse pass\<close>

text \<open>
  \<^verbatim>\<open>pickEdgeCollapses\<close> appends to the array \<^verbatim>\<open>collapses\<close> and returns the count: the model
  returns the list of the records written, whose length is the count. Every \<^verbatim>\<open>continue\<close>
  leaves the list as it is.
\<close>

definition pick_edge ::
  "nat list \<Rightarrow> nat list \<Rightarrow> VertexKind list \<Rightarrow> nat list \<Rightarrow> nat \<Rightarrow> nat \<Rightarrow>
     Collapse list \<Rightarrow> Collapse list" where
  "pick_edge indices remap vertex_kind loop i e collapses =
     (let i0 = indices ! (i + e); i1 = indices ! (i + next3 e)
      in if remap ! i0 = remap ! i1 then collapses
         else let k0 = vertex_kind ! i0; k1 = vertex_kind ! i1
              in if \<not> (kCanCollapse k0 k1 \<or> kCanCollapse k1 k0) then collapses
                 else if kHasOpposite k0 k1 \<and> remap ! i1 > remap ! i0 then collapses
                 else if k0 = k1 \<and> (k0 = Kind_Border \<or> k0 = Kind_Seam) \<and> loop ! i0 \<noteq> i1
                   then collapses
                 else if kCanCollapse k0 k1 \<and> kCanCollapse k1 k0 then
                   collapses @ [\<lparr>v0 = i0, v1 = i1, errorui = 1\<rparr>]
                 else
                   let e0 = (if kCanCollapse k0 k1 then i0 else i1);
                       e1 = (if kCanCollapse k0 k1 then i1 else i0)
                   in collapses @ [\<lparr>v0 = e0, v1 = e1, errorui = 0\<rparr>])"

definition pickEdgeCollapses ::
  "nat list \<Rightarrow> nat \<Rightarrow> nat list \<Rightarrow> VertexKind list \<Rightarrow> nat list \<Rightarrow> Collapse list" where
  "pickEdgeCollapses indices index_count remap vertex_kind loop =
     fold (\<lambda>i. fold (pick_edge indices remap vertex_kind loop i) [0..<3])
       (triangle_starts index_count) []"

definition rank_collapse :: "Vector3 list \<Rightarrow> Quadric list \<Rightarrow> nat list \<Rightarrow> Collapse \<Rightarrow> Collapse" where
  "rank_collapse vertex_positions vertex_quadrics remap c =
     (let i0 = v0 c; i1 = v1 c;
          j0 = (if errorui c \<noteq> 0 then i1 else i0);
          j1 = (if errorui c \<noteq> 0 then i0 else i1);
          ei = quadricError (vertex_quadrics ! (remap ! i0)) (vertex_positions ! i1);
          ej = quadricError (vertex_quadrics ! (remap ! j0)) (vertex_positions ! j1)
      in \<lparr>v0 = (if float_le ei ej then i0 else j0),
          v1 = (if float_le ei ej then i1 else j1),
          errorui = (if float_le ei ej then ei else ej)\<rparr>)"

definition rankEdgeCollapses ::
  "Collapse list \<Rightarrow> nat \<Rightarrow> Vector3 list \<Rightarrow> Quadric list \<Rightarrow> nat list \<Rightarrow> Collapse list" where
  "rankEdgeCollapses collapses collapse_count vertex_positions vertex_quadrics remap =
     fold (\<lambda>i cs. cs[i := rank_collapse vertex_positions vertex_quadrics remap (cs ! i)])
       [0..<collapse_count] collapses"

text \<open>
  \<^verbatim>\<open>performEdgeCollapses\<close>. The state of its loop holds the arrays it writes and its two
  counters; \<open>st_applied\<close> is a history variable that is not in the source: the positions
  in \<^verbatim>\<open>collapse_order\<close> of the collapses that were applied, most recent first.
\<close>

record collapse_state =
  st_remap :: "nat list"
  st_locked :: "bool list"
  st_quadrics :: "Quadric list"
  st_edge_collapses :: nat
  st_triangle_collapses :: nat
  st_applied :: "nat list"

definition apply_collapse ::
  "nat list \<Rightarrow> nat list \<Rightarrow> VertexKind list \<Rightarrow> nat \<Rightarrow> Collapse \<Rightarrow> collapse_state \<Rightarrow> collapse_state" where
  "apply_collapse remap wedge vertex_kind i c st =
     (let i0 = v0 c; i1 = v1 c; r0 = remap ! i0; r1 = remap ! i1;
          qs = (st_quadrics st)[r1 := quadricAdd (st_quadrics st ! r1) (st_quadrics st ! r0)];
          cr = (if vertex_kind ! i0 = Kind_Seam then
                  let s0 = wedge ! i0; s1 = wedge ! i1
                  in ((st_remap st)[i0 := i1])[s0 := s1]
                else (st_remap st)[i0 := i1]);
          locked = ((st_locked st)[r0 := True])[r1 := True]
      in \<lparr>st_remap = cr, st_locked = locked, st_quadrics = qs,
          st_edge_collapses = st_edge_collapses st + 1,
          st_triangle_collapses =
            st_triangle_collapses st + (if vertex_kind ! i0 = Kind_Border then 1 else 2),
          st_applied = i # st_applied st\<rparr>)"

function performEdgeCollapses_loop ::
  "Collapse list \<Rightarrow> nat \<Rightarrow> nat list \<Rightarrow> nat list \<Rightarrow> nat list \<Rightarrow> VertexKind list \<Rightarrow> nat \<Rightarrow>
     float \<Rightarrow> nat \<Rightarrow> collapse_state \<Rightarrow> collapse_state" where
  "performEdgeCollapses_loop collapses collapse_count collapse_order remap wedge vertex_kind
       triangle_collapse_goal error_limit i st =
     (if i < collapse_count then
        let c = collapses ! (collapse_order ! i)
        in if float_gt (errorui c) error_limit then st
           else if st_triangle_collapses st \<ge> triangle_collapse_goal then st
           else if st_locked st ! (remap ! v0 c) \<or> st_locked st ! (remap ! v1 c) then
             performEdgeCollapses_loop collapses collapse_count collapse_order remap wedge
               vertex_kind triangle_collapse_goal error_limit (i + 1) st
           else
             performEdgeCollapses_loop collapses collapse_count collapse_order remap wedge
               vertex_kind triangle_collapse_goal error_limit (i + 1)
               (apply_collapse remap wedge vertex_kind i c st)
      else st)"
  by pat_completeness auto
termination
  by (relation "measure (\<lambda>(collapses, collapse_count, collapse_order, remap, wedge, vertex_kind,
        triangle_collapse_goal, error_limit, i, st). collapse_count - i)") auto

declare performEdgeCollapses_loop.simps [simp del]

definition performEdgeCollapses ::
  "nat list \<Rightarrow> bool list \<Rightarrow> Quadric list \<Rightarrow> Collapse list \<Rightarrow> nat \<Rightarrow> nat list \<Rightarrow> nat list \<Rightarrow>
     nat list \<Rightarrow> VertexKind list \<Rightarrow> nat \<Rightarrow> float \<Rightarrow> collapse_state" where
  "performEdgeCollapses collapse_remap collapse_locked vertex_quadrics collapses collapse_count
       collapse_order remap wedge vertex_kind triangle_collapse_goal error_limit =
     performEdgeCollapses_loop collapses collapse_count collapse_order remap wedge vertex_kind
       triangle_collapse_goal error_limit 0
       \<lparr>st_remap = collapse_remap, st_locked = collapse_locked, st_quadrics = vertex_quadrics,
        st_edge_collapses = 0, st_triangle_collapses = 0, st_applied = []\<rparr>"

text \<open>\<^verbatim>\<open>remapIndexBuffer\<close> compacts in place and returns the buffer and the new count.\<close>

definition remap_triangle :: "nat list \<Rightarrow> nat \<Rightarrow> nat list \<times> nat \<Rightarrow> nat list \<times> nat" where
  "remap_triangle collapse_remap i =
     (\<lambda>(indices, write).
        let w0 = collapse_remap ! (indices ! (i + 0));
            w1 = collapse_remap ! (indices ! (i + 1));
            w2 = collapse_remap ! (indices ! (i + 2))
        in if w0 \<noteq> w1 \<and> w0 \<noteq> w2 \<and> w1 \<noteq> w2 then
             (((indices[write + 0 := w0])[write + 1 := w1])[write + 2 := w2], write + 3)
           else (indices, write))"

definition remapIndexBuffer :: "nat list \<Rightarrow> nat \<Rightarrow> nat list \<Rightarrow> nat list \<times> nat" where
  "remapIndexBuffer indices index_count collapse_remap =
     fold (remap_triangle collapse_remap) (triangle_starts index_count) (indices, 0)"

definition remap_loop :: "nat list \<Rightarrow> nat \<Rightarrow> nat list \<Rightarrow> nat list" where
  "remap_loop collapse_remap i loop =
     (if loop ! i \<noteq> UINT_MAX then
        let l = loop ! i; r = collapse_remap ! l
        in loop[i := (if i = r then loop ! l else r)]
      else loop)"

definition remapEdgeLoops :: "nat list \<Rightarrow> nat \<Rightarrow> nat list \<Rightarrow> nat list" where
  "remapEdgeLoops loop vertex_count collapse_remap =
     fold (remap_loop collapse_remap) [0..<vertex_count] loop"

section \<open>The exact simplifier\<close>

text \<open>
  The error limit of a pass, as the body of the outer loop computes it. \<open>0x3FC00000\<close> is
  \<^verbatim>\<open>kPassErrorBound = 1.5f\<close>.
\<close>

definition pass_error_limit :: "Collapse list \<Rightarrow> nat \<Rightarrow> nat list \<Rightarrow> nat \<Rightarrow> float \<Rightarrow> float" where
  "pass_error_limit edge_collapses edge_collapse_count collapse_order edge_collapse_goal target_error =
     (let error_goal =
            (if edge_collapse_goal < edge_collapse_count then
               fmul (errorui (edge_collapses ! (collapse_order ! edge_collapse_goal))) 0x3FC00000
             else FLT_MAX)
      in if float_gt error_goal target_error then target_error else error_goal)"

text \<open>
  One iteration of the outer loop of \<^verbatim>\<open>meshopt_simplify\<close>. The state that survives an
  iteration is the index buffer \<^verbatim>\<open>result\<close> with its count, \<^verbatim>\<open>loop\<close>, \<^verbatim>\<open>vertex_quadrics\<close>
  and the array \<^verbatim>\<open>collapse_order\<close>; \<open>None\<close> is either \<^verbatim>\<open>break\<close>.
\<close>

type_synonym simplify_state = "nat list \<times> nat \<times> nat list \<times> Quadric list \<times> nat list"

definition simplify_pass ::
  "nat \<Rightarrow> nat list \<Rightarrow> nat list \<Rightarrow> VertexKind list \<Rightarrow> Vector3 list \<Rightarrow> nat \<Rightarrow> float \<Rightarrow>
     simplify_state \<Rightarrow> simplify_state option" where
  "simplify_pass vertex_count remap wedge vertex_kind vertex_positions target_index_count
       target_error =
     (\<lambda>(result, result_count, loop, vertex_quadrics, collapse_order).
        let edge_collapses = pickEdgeCollapses result result_count remap vertex_kind loop;
            edge_collapse_count = length edge_collapses
        in if edge_collapse_count = 0 then None
           else
             let edge_collapses = rankEdgeCollapses edge_collapses edge_collapse_count
                   vertex_positions vertex_quadrics remap;
                 collapse_order = sortEdgeCollapses collapse_order edge_collapses edge_collapse_count;
                 triangle_collapse_goal = (result_count - target_index_count) div 3;
                 edge_collapse_goal = triangle_collapse_goal div 2;
                 error_limit = pass_error_limit edge_collapses edge_collapse_count collapse_order
                   edge_collapse_goal target_error;
                 st = performEdgeCollapses [0..<vertex_count] (replicate vertex_count False)
                   vertex_quadrics edge_collapses edge_collapse_count collapse_order remap wedge
                   vertex_kind triangle_collapse_goal error_limit
             in if st_edge_collapses st = 0 then None
                else
                  let loop = remapEdgeLoops loop vertex_count (st_remap st);
                      (result, new_count) = remapIndexBuffer result result_count (st_remap st)
                  in Some (result, new_count, loop, st_quadrics st, collapse_order))"

partial_function (option) simplify_loop ::
  "nat \<Rightarrow> nat list \<Rightarrow> nat list \<Rightarrow> VertexKind list \<Rightarrow> Vector3 list \<Rightarrow> nat \<Rightarrow> float \<Rightarrow>
     simplify_state \<Rightarrow> simplify_state option" where
  "simplify_loop vertex_count remap wedge vertex_kind vertex_positions target_index_count
       target_error s =
     (if fst (snd s) > target_index_count then
        (case simplify_pass vertex_count remap wedge vertex_kind vertex_positions
                target_index_count target_error s of
           None \<Rightarrow> Some s
         | Some s' \<Rightarrow>
             simplify_loop vertex_count remap wedge vertex_kind vertex_positions
               target_index_count target_error s')
      else Some s)"

text \<open>
  \<^verbatim>\<open>meshopt_simplify\<close> returns the count and the contents of the destination, or \<open>None\<close> when
  it does not return. The \<^verbatim>\<open>memcpy\<close> is written as it acts on the contents: when the
  destination is the index buffer itself the copy is skipped in the source, and the
  contents are the same.
\<close>

definition meshopt_simplify ::
  "scratch \<Rightarrow> nat list \<Rightarrow> nat list \<Rightarrow> nat \<Rightarrow> float list \<Rightarrow> nat \<Rightarrow> nat \<Rightarrow> nat \<Rightarrow> float \<Rightarrow>
     (nat \<times> nat list) option" where
  "meshopt_simplify mem destination indices index_count vertex_positions_data vertex_count
       vertex_positions_stride target_index_count target_error =
     (let adjacency = buildEdgeAdjacency mem indices index_count vertex_count
      in case buildPositionRemap (allocate (fresh_uint mem) vertex_count) vertex_positions_data
                vertex_count vertex_positions_stride of
           None \<Rightarrow> None
         | Some (remap, wedge) \<Rightarrow>
            (case classifyVertices (allocate (fresh_kind mem) vertex_count) vertex_count adjacency
                    remap wedge of
               None \<Rightarrow> None
             | Some (vertex_kind, loop) \<Rightarrow>
                 let vertex_positions = rescalePositions vertex_positions_data vertex_count
                       vertex_positions_stride;
                     vertex_quadrics = replicate vertex_count quadric_zero;
                     vertex_quadrics = fillFaceQuadrics vertex_quadrics indices index_count
                       vertex_positions remap;
                     vertex_quadrics = fillEdgeQuadrics vertex_quadrics indices index_count
                       vertex_positions remap vertex_kind loop;
                     result = take index_count indices @ drop index_count destination;
                     collapse_order = allocate (fresh_uint mem) index_count
                 in (case simplify_loop vertex_count remap wedge vertex_kind vertex_positions
                            target_index_count target_error
                            (result, index_count, loop, vertex_quadrics, collapse_order) of
                       None \<Rightarrow> None
                     | Some (result, result_count, loop, vertex_quadrics, collapse_order) \<Rightarrow>
                         Some (result_count, result))))"

section \<open>The sloppy simplifier\<close>

text \<open>
  The source is compiled with \<^verbatim>\<open>SLOP_TARGET_BINARY\<close>, \<^verbatim>\<open>SLOP_TARGET_CELLS_APPROX\<close> and
  \<^verbatim>\<open>SLOP_CACHE_ERRORS\<close> set and \<^verbatim>\<open>SLOP_FILTER_DUPLICATES\<close> cleared; the model follows the
  code that these switches select. A cell id is an \<^verbatim>\<open>unsigned int\<close> built with shifts, kept
  as a 32-bit word.
\<close>

record HashCell =
  hc_id :: "32 word"
  hc_cell :: nat

definition HashCell_eq :: "HashCell \<Rightarrow> HashCell \<Rightarrow> bool" where
  "HashCell_eq a b \<longleftrightarrow> hc_id a = hc_id b"

definition HashCellHasher_hash :: "HashCell \<Rightarrow> nat" where
  "HashCellHasher_hash cell =
     (let h = hc_id cell;
          h = h XOR drop_bit 13 h;
          h = h * 0x5bd1e995;
          h = h XOR drop_bit 15 h
      in unat h)"

definition HashCellHasher_equal :: "HashCell \<Rightarrow> HashCell \<Rightarrow> bool" where
  "HashCellHasher_equal lhs rhs \<longleftrightarrow> hc_id lhs = hc_id rhs"

text \<open>\<open>0x447FE000\<close> is \<open>1023.5f\<close> and \<open>0x3F000000\<close> is \<open>0.5f\<close>.\<close>

definition grid_coordinate :: "float \<Rightarrow> int" where
  "grid_coordinate p = float_to_int (fadd (fmul p 0x447FE000) 0x3F000000)"

definition vertex_id :: "Vector3 \<Rightarrow> 32 word" where
  "vertex_id v =
     (let xi = grid_coordinate (vx v); yi = grid_coordinate (vy v); zi = grid_coordinate (vz v)
      in push_bit 20 (word_of_int xi) OR push_bit 10 (word_of_int yi) OR word_of_int zi)"

definition cell_mask :: "nat \<Rightarrow> 32 word" where
  "cell_mask pass =
     (let maskc = 1023 AND NOT (push_bit (9 - pass) 1 - 1)
      in push_bit 20 maskc OR push_bit 10 maskc OR maskc)"

definition approx_count_step :: "32 word list \<Rightarrow> nat \<Rightarrow> 32 word \<Rightarrow> nat \<Rightarrow> nat list \<times> nat \<Rightarrow> nat list \<times> nat" where
  "approx_count_step vertex_ids count_table_size maskv i =
     (\<lambda>(count_table, cell_count).
        let id = vertex_ids ! i AND maskv;
            cell = \<lparr>hc_id = id, hc_cell = 0\<rparr>;
            hash = HashCellHasher_hash cell AND (count_table_size - 1)
        in (count_table[hash := 1], cell_count + (1 - count_table ! hash)))"

definition approx_cell_count :: "32 word list \<Rightarrow> nat \<Rightarrow> nat \<Rightarrow> 32 word \<Rightarrow> nat" where
  "approx_cell_count vertex_ids vertex_count count_table_size maskv =
     snd (fold (approx_count_step vertex_ids count_table_size maskv) [0..<vertex_count]
            (replicate count_table_size 0, 0))"

function approx_mask_loop :: "32 word list \<Rightarrow> nat \<Rightarrow> nat \<Rightarrow> nat \<Rightarrow> nat \<Rightarrow> 32 word \<Rightarrow> 32 word" where
  "approx_mask_loop vertex_ids vertex_count count_table_size target_cell_count pass maskv =
     (if pass < 10 then
        let maskv = cell_mask pass;
            cell_count = approx_cell_count vertex_ids vertex_count count_table_size maskv
        in if cell_count \<ge> target_cell_count then maskv
           else approx_mask_loop vertex_ids vertex_count count_table_size target_cell_count
                  (pass + 1) maskv
      else maskv)"
  by pat_completeness auto
termination
  by (relation "measure (\<lambda>(vertex_ids, vertex_count, count_table_size, target_cell_count, pass, maskv).
        10 - pass)") auto

declare approx_mask_loop.simps [simp del]

definition fill_cell ::
  "32 word list \<Rightarrow> 32 word \<Rightarrow> nat \<Rightarrow> nat \<Rightarrow> HashCell list \<times> nat list \<times> nat \<Rightarrow>
     (HashCell list \<times> nat list \<times> nat) option" where
  "fill_cell vertex_ids maskv table_size i =
     (\<lambda>(table, vertex_cells, cell_count).
        let id = vertex_ids ! i AND maskv;
            cell = \<lparr>hc_id = id, hc_cell = 0\<rparr>
        in case hashLookup2 table table_size HashCellHasher_hash HashCell_eq HashCellHasher_equal
                  cell \<lparr>hc_id = - 1, hc_cell = 0\<rparr> of
             None \<Rightarrow> None
           | Some entry \<Rightarrow>
               if hc_id (table ! entry) = - 1 then
                 let table = table[entry := \<lparr>hc_id = hc_id cell, hc_cell = cell_count\<rparr>]
                 in Some (table, vertex_cells[i := hc_cell (table ! entry)], cell_count + 1)
               else Some (table, vertex_cells[i := hc_cell (table ! entry)], cell_count))"

definition cell_representative ::
  "Quadric list \<Rightarrow> Vector3 list \<Rightarrow> nat list \<Rightarrow> nat \<Rightarrow> nat list \<times> float list \<Rightarrow>
     nat list \<times> float list" where
  "cell_representative cell_quadrics vertex_positions vertex_cells i =
     (\<lambda>(cell_remap, cell_errors).
        let cell = vertex_cells ! i
        in if cell_remap ! cell = UINT_MAX then
             (cell_remap[cell := i],
              cell_errors[cell := quadricError (cell_quadrics ! cell) (vertex_positions ! i)])
           else
             let j = cell_remap ! cell;
                 ei = quadricError (cell_quadrics ! cell) (vertex_positions ! i);
                 ej = cell_errors ! cell
             in (cell_remap[cell := (if float_lt ei ej then i else j)],
                 cell_errors[cell := (if float_lt ei ej then ei else ej)]))"

definition emit_triangle ::
  "nat list \<Rightarrow> nat list \<Rightarrow> nat list \<Rightarrow> nat \<Rightarrow> nat list \<times> nat \<Rightarrow> nat list \<times> nat" where
  "emit_triangle indices cell_remap vertex_cells i =
     (\<lambda>(destination, write).
        let w0 = cell_remap ! (vertex_cells ! (indices ! (i + 0)));
            w1 = cell_remap ! (vertex_cells ! (indices ! (i + 1)));
            w2 = cell_remap ! (vertex_cells ! (indices ! (i + 2)))
        in if w0 \<noteq> w1 \<and> w0 \<noteq> w2 \<and> w1 \<noteq> w2 then
             (((destination[write + 0 := w0])[write + 1 := w1])[write + 2 := w2], write + 3)
           else (destination, write))"

definition sloppy_emit ::
  "nat list \<Rightarrow> nat list \<Rightarrow> nat \<Rightarrow> nat list \<Rightarrow> nat list \<Rightarrow> nat list \<times> nat" where
  "sloppy_emit destination indices index_count cell_remap vertex_cells =
     fold (emit_triangle indices cell_remap vertex_cells) (triangle_starts index_count)
       (destination, 0)"

definition meshopt_simplifySloppy ::
  "scratch \<Rightarrow> nat list \<Rightarrow> nat list \<Rightarrow> nat \<Rightarrow> float list \<Rightarrow> nat \<Rightarrow> nat \<Rightarrow> nat \<Rightarrow> float \<Rightarrow>
     (nat \<times> nat list) option" where
  "meshopt_simplifySloppy mem destination indices index_count vertex_positions_data vertex_count
       vertex_positions_stride target_index_count target_error =
     (let target_cell_count = target_index_count div 6
      in if target_cell_count = 0 then Some (0, destination)
         else
           let vertex_positions = rescalePositions vertex_positions_data vertex_count
                 vertex_positions_stride;
               vertex_cells = allocate (fresh_uint mem) vertex_count
           in case hashBuckets2 vertex_count of
                None \<Rightarrow> None
              | Some table_size \<Rightarrow>
                 let vertex_ids = map (\<lambda>i. vertex_id (vertex_positions ! i)) [0..<vertex_count]
                 in (case hashBuckets2 (target_cell_count * 4) of
                       None \<Rightarrow> None
                     | Some count_table_size \<Rightarrow>
                        let maskv = approx_mask_loop vertex_ids vertex_count count_table_size
                              target_cell_count 0 0
                        in (case fold_option (fill_cell vertex_ids maskv table_size) [0..<vertex_count]
                                   (replicate table_size \<lparr>hc_id = - 1, hc_cell = UINT_MAX\<rparr>,
                                    vertex_cells, 0) of
                              None \<Rightarrow> None
                            | Some (table, vertex_cells, cell_count) \<Rightarrow>
                               let cell_quadrics = replicate cell_count quadric_zero;
                                   cell_quadrics = fillFaceQuadrics cell_quadrics indices index_count
                                     vertex_positions vertex_cells;
                                   (cell_remap, cell_errors) =
                                     fold (cell_representative cell_quadrics vertex_positions vertex_cells)
                                       [0..<vertex_count]
                                       (replicate cell_count UINT_MAX,
                                        allocate (fresh_float mem) cell_count);
                                   (destination, write) = sloppy_emit destination indices index_count
                                     cell_remap vertex_cells
                               in Some (write, destination))))"

section \<open>Invariants used in the proofs\<close>

text \<open>
  The definitions of this section are not part of the program: they state what the loops
  of the set-up phase maintain. \<open>remap_inv\<close> is the invariant of the interning loop of
  \<^verbatim>\<open>buildPositionRemap\<close> after \<open>i\<close> vertices, \<open>wedge_inv\<close> that of its splicing loop
  (\<^verbatim>\<open>wedge\<close> is a permutation that stays within a position class), \<open>idx_occ\<close> and \<open>idx_off\<close>
  are the counts and the prefix sums that \<^verbatim>\<open>buildEdgeAdjacency\<close> computes, \<open>adj_slot\<close> is
  one of the three writes it makes per face, and \<open>adjacency_valid\<close> says that every block
  of the adjacency holds vertex indices.
\<close>

definition remap_inv :: "float list \<Rightarrow> nat \<Rightarrow> nat \<Rightarrow> nat \<Rightarrow> nat list \<times> nat list \<Rightarrow> bool" where
  "remap_inv vp stride T i =
     (\<lambda>(table, remap).
        length table = T \<and>
        length (filter (\<lambda>x. x \<noteq> UINT_MAX) table) \<le> i \<and>
        (\<forall>e<T. table ! e = UINT_MAX \<or> (table ! e < i \<and> remap ! (table ! e) = table ! e)) \<and>
        (\<forall>j<i. remap ! j \<le> j \<and> remap ! (remap ! j) = remap ! j \<and>
               PositionHasher_equal vp stride (remap ! j) j))"

definition wedge_inv :: "nat list \<Rightarrow> nat \<Rightarrow> nat \<Rightarrow> nat list \<Rightarrow> bool" where
  "wedge_inv remap n m w \<longleftrightarrow>
     length w = n \<and>
     (\<forall>v<n. w ! v < n \<and> remap ! (w ! v) = remap ! v) \<and>
     (\<forall>u<n. \<forall>v<n. w ! u = w ! v \<longrightarrow> u = v) \<and>
     (\<forall>v<n. m \<le> v \<longrightarrow> w ! v = v) \<and>
     (\<forall>v<m. remap ! v \<noteq> v \<longrightarrow> w ! v \<noteq> v)"

definition idx_occ :: "nat list \<Rightarrow> nat \<Rightarrow> nat \<Rightarrow> nat" where
  "idx_occ indices t v = card {i. i < t \<and> indices ! i = v}"

definition idx_off :: "nat list \<Rightarrow> nat \<Rightarrow> nat \<Rightarrow> nat" where
  "idx_off indices N v = card {i. i < N \<and> indices ! i < v}"

definition adj_inv :: "nat list \<Rightarrow> nat \<Rightarrow> nat \<Rightarrow> nat \<Rightarrow> nat list \<times> nat list \<Rightarrow> bool" where
  "adj_inv indices N n t =
     (\<lambda>(os, ds). length os = n \<and> length ds = N \<and>
        (\<forall>v<n. os ! v = idx_off indices N v + idx_occ indices t v) \<and>
        (\<forall>v<n. \<forall>j<idx_occ indices t v. ds ! (idx_off indices N v + j) < n))"

definition adj_slot :: "nat list \<Rightarrow> nat \<Rightarrow> nat \<Rightarrow> nat list \<times> nat list \<Rightarrow> nat list \<times> nat list" where
  "adj_slot indices t x = (\<lambda>(os, ds). (os[indices ! t := os ! (indices ! t) + 1], ds[os ! (indices ! t) := x]))"

definition adjacency_valid :: "EdgeAdjacency \<Rightarrow> nat \<Rightarrow> bool" where
  "adjacency_valid adjacency n \<longleftrightarrow>
     length (counts adjacency) = n \<and> length (offsets adjacency) = n \<and>
     (\<forall>v<n. \<forall>j<counts adjacency ! v. data adjacency ! (offsets adjacency ! v + j) < n)"


text \<open>
  For the compaction loops: \<open>degenerate cr buf k\<close> says that triangle \<open>k\<close> of \<open>buf\<close> has two
  corners with the same image under \<open>cr\<close>, \<open>distinct_corners buf count\<close> that every triangle
  among the first \<open>count\<close> indices has three different corners, and \<open>compact_inv\<close> is the
  invariant of the loop of \<^verbatim>\<open>remapIndexBuffer\<close> after \<open>k\<close> triangles.
\<close>

definition degenerate :: "nat list \<Rightarrow> nat list \<Rightarrow> nat \<Rightarrow> bool" where
  "degenerate cr buf k \<longleftrightarrow>
     \<not> (cr ! (buf ! (3 * k)) \<noteq> cr ! (buf ! (3 * k + 1)) \<and>
        cr ! (buf ! (3 * k)) \<noteq> cr ! (buf ! (3 * k + 2)) \<and>
        cr ! (buf ! (3 * k + 1)) \<noteq> cr ! (buf ! (3 * k + 2)))"

definition distinct_corners :: "nat list \<Rightarrow> nat \<Rightarrow> bool" where
  "distinct_corners buf count \<longleftrightarrow>
     (\<forall>t. 3 * t + 2 < count \<longrightarrow>
        buf ! (3 * t) \<noteq> buf ! (3 * t + 1) \<and> buf ! (3 * t) \<noteq> buf ! (3 * t + 2) \<and>
        buf ! (3 * t + 1) \<noteq> buf ! (3 * t + 2))"

definition compact_inv :: "nat list \<Rightarrow> nat list \<Rightarrow> nat \<Rightarrow> nat list \<times> nat \<Rightarrow> bool" where
  "compact_inv cr buf0 k =
     (\<lambda>(buf, w). length buf = length buf0 \<and> w \<le> 3 * k \<and> 3 dvd w \<and>
        (\<forall>p. 3 * k \<le> p \<longrightarrow> buf ! p = buf0 ! p) \<and>
        (\<forall>p<w. \<exists>q<3 * k. buf ! p = cr ! (buf0 ! q)) \<and>
        distinct_corners buf w \<and>
        ((\<exists>j<k. degenerate cr buf0 j) \<longrightarrow> w < 3 * k))"


text \<open>
  For the collapse pass: \<open>buffer_edge buf count a b\<close> says that \<open>a\<close> and \<open>b\<close> are consecutive
  corners (in either direction) of a triangle among the first \<open>count\<close> indices of \<open>buf\<close>;
  \<open>pick_ok\<close> is what \<^verbatim>\<open>pickEdgeCollapses\<close> guarantees of every record it writes; \<open>collapse_inv\<close>
  is the invariant of the loop of \<^verbatim>\<open>performEdgeCollapses\<close>: a vertex that was moved has its
  position locked, and every applied collapse still maps both of its ends to its target.
\<close>

definition buffer_edge :: "nat list \<Rightarrow> nat \<Rightarrow> nat \<Rightarrow> nat \<Rightarrow> bool" where
  "buffer_edge buf count a b \<longleftrightarrow>
     (\<exists>k e. 3 * k + 2 < count \<and> e < 3 \<and>
        ((a = buf ! (3 * k + e) \<and> b = buf ! (3 * k + next3 e)) \<or>
         (b = buf ! (3 * k + e) \<and> a = buf ! (3 * k + next3 e))))"

definition pick_ok :: "nat list \<Rightarrow> nat \<Rightarrow> nat list \<Rightarrow> Collapse list \<Rightarrow> bool" where
  "pick_ok buf count remap cs \<longleftrightarrow>
     (\<forall>c\<in>set cs. buffer_edge buf count (v0 c) (v1 c) \<and> remap ! v0 c \<noteq> remap ! v1 c)"

definition collapse_inv ::
  "nat \<Rightarrow> nat \<Rightarrow> nat list \<Rightarrow> Collapse list \<Rightarrow> nat list \<Rightarrow> collapse_state \<Rightarrow> bool" where
  "collapse_inv n m remap collapses order st \<longleftrightarrow>
     length (st_remap st) = n \<and> length (st_locked st) = n \<and>
     st_edge_collapses st = length (st_applied st) \<and>
     (\<forall>v<n. st_remap st ! v < n) \<and>
     (\<forall>v<n. st_remap st ! v \<noteq> v \<longrightarrow> st_locked st ! (remap ! v)) \<and>
     (\<forall>i\<in>set (st_applied st). i < m \<and>
        st_remap st ! v0 (collapses ! (order ! i)) = v1 (collapses ! (order ! i)) \<and>
        st_remap st ! v1 (collapses ! (order ! i)) = v1 (collapses ! (order ! i)) \<and>
        st_locked st ! (remap ! v0 (collapses ! (order ! i))) \<and>
        st_locked st ! (remap ! v1 (collapses ! (order ! i))))"


text \<open>
  \<open>simplify_inv n N\<close> is the invariant of the outer loop of \<^verbatim>\<open>meshopt_simplify\<close> for a mesh of
  \<open>n\<close> vertices and \<open>N\<close> input indices: the first \<^verbatim>\<open>result_count\<close> entries of \<^verbatim>\<open>result\<close> are a
  valid index buffer, \<^verbatim>\<open>result_count\<close> is at most \<open>N\<close>, and \<^verbatim>\<open>collapse_order\<close> has the \<open>N\<close>
  entries it was allocated with.
\<close>

definition simplify_inv :: "nat \<Rightarrow> nat \<Rightarrow> simplify_state \<Rightarrow> bool" where
  "simplify_inv n N = (\<lambda>(result, result_count, loop, vertex_quadrics, collapse_order).
     valid_mesh result result_count n \<and> result_count \<le> N \<and> length collapse_order = N)"

section \<open>Properties\<close>

subsection \<open>The probe sequence of \<^verbatim>\<open>hashLookup2\<close>\<close>

lemma tri_Suc: "tri (Suc k) = tri k + k + 1"
  unfolding tri_def by (induction k) auto

lemma and_hashmod: "x AND (2 ^ n - 1 :: nat) = x mod 2 ^ n"
proof -
  have "x AND (2 ^ n - 1 :: nat) = take_bit n x"
    by (simp add: take_bit_eq_mask mask_eq_exp_minus_1)
  then show ?thesis by (simp add: take_bit_eq_mod)
qed

lemma probe_bucket_tri:
  "start < 2 ^ n \<Longrightarrow> probe_bucket (2 ^ n - 1) start k = (start + tri k) mod 2 ^ n"
proof (induction k)
  case 0
  then show ?case by (simp add: probe_bucket_def tri_def)
next
  case (Suc k)
  have "probe_bucket (2 ^ n - 1) start (Suc k) = (probe_bucket (2 ^ n - 1) start k + k + 1) AND (2 ^ n - 1)"
    by (simp add: probe_bucket_def)
  also have "\<dots> = ((start + tri k) mod 2 ^ n + (k + 1)) mod 2 ^ n"
    using Suc and_hashmod [of "(start + tri k) mod 2 ^ n + (k + 1)" n] by (simp add: add.assoc)
  also have "\<dots> = (start + tri k + (k + 1)) mod 2 ^ n"
    by (rule mod_add_left_eq)
  finally show ?case by (simp add: tri_Suc add.assoc)
qed

lemma tri_double: "2 * tri k = k * (k + 1)"
  unfolding tri_def by simp

lemma tri_mono: "i \<le> j \<Longrightarrow> tri i \<le> tri j"
  unfolding tri_def by (intro div_le_mono mult_le_mono) auto

lemma tri_inj_mod:
  assumes "i < j" "j < 2 ^ n" "tri i mod 2 ^ n = tri j mod 2 ^ n"
  shows False
proof -
  have le: "tri i \<le> tri j" using assms(1) by (simp add: tri_mono)
  have "(2::nat) ^ n dvd tri j - tri i"
    using assms(3) le by (metis mod_eq_dvd_iff_nat)
  then have "2 * 2 ^ n dvd 2 * (tri j - tri i)" by simp
  also have "2 * (tri j - tri i) = j * (j + 1) - i * (i + 1)"
    by (simp add: diff_mult_distrib2 tri_double)
  also have "\<dots> = (j - i) * (i + j + 1)"
  proof -
    obtain d where d: "j = i + d" using assms(1) by (metis less_imp_add_positive)
    show ?thesis unfolding d by (simp add: algebra_simps)
  qed
  finally have dv: "(2::nat) ^ Suc n dvd (j - i) * (i + j + 1)" by simp
  have lt1: "j - i < 2 ^ Suc n" "0 < j - i" using assms by auto
  have lt2: "i + j + 1 < 2 ^ Suc n" "0 < i + j + 1" using assms by auto
  show False
  proof (cases "odd (j - i)")
    case True
    then have "coprime ((2::nat) ^ Suc n) (j - i)" by simp
    with dv have "(2::nat) ^ Suc n dvd i + j + 1"
      using coprime_dvd_mult_right_iff by blast
    with lt2 show False by (meson dvd_imp_le not_less)
  next
    case False
    then have "odd (i + j + 1)" using assms(1) by auto
    then have "coprime ((2::nat) ^ Suc n) (i + j + 1)" by simp
    with dv have "(2::nat) ^ Suc n dvd j - i"
      using coprime_dvd_mult_left_iff by blast
    with lt1 show False by (meson dvd_imp_le not_less)
  qed
qed


lemma probe_bucket_Suc:
  "probe_bucket hm start (Suc k) = (probe_bucket hm start k + k + 1) AND hm"
  by (simp add: probe_bucket_def)

lemma probe_bucket_surj:
  assumes "start < 2 ^ n"
  shows "probe_bucket (2 ^ n - 1) start ` {0..<2 ^ n} = {0..<2 ^ n}"
proof -
  let ?f = "probe_bucket (2 ^ n - 1) start"
  have inj: "inj_on ?f {0..<2 ^ n}"
  proof (rule linorder_inj_onI)
    fix i j :: nat assume ij: "i < j" and "i \<in> {0..<2 ^ n}" and j: "j \<in> {0..<2 ^ n}"
    show "?f i \<noteq> ?f j"
    proof
      assume "?f i = ?f j"
      then have "(start + tri i) mod 2 ^ n = (start + tri j) mod 2 ^ n"
        using probe_bucket_tri [OF assms, of i] probe_bucket_tri [OF assms, of j] by simp
      moreover have le: "tri i \<le> tri j" using ij by (simp add: tri_mono)
      ultimately have "(2::nat) ^ n dvd (start + tri j) - (start + tri i)"
        using mod_eq_dvd_iff_nat [of "start + tri i" "start + tri j" "2 ^ n"] by simp
      then have "(2::nat) ^ n dvd tri j - tri i" by simp
      then have "tri i mod 2 ^ n = tri j mod 2 ^ n"
        using mod_eq_dvd_iff_nat [of "tri i" "tri j" "2 ^ n"] le by simp
      with ij j show False using tri_inj_mod [of i j n] by simp
    qed
  qed auto
  have sub: "?f ` {0..<2 ^ n} \<subseteq> {0..<2 ^ n}"
    using probe_bucket_tri [OF assms] by auto
  have "card (?f ` {0..<2 ^ n}) = card {0..<(2::nat) ^ n}"
    using inj by (rule card_image)
  with sub show ?thesis by (simp add: card_subset_eq)
qed

lemma hashLookup2_loop_None:
  "hashLookup2_loop t hm eqv equalf key emptyv (probe_bucket hm start p) p = None \<Longrightarrow>
   p \<le> k \<Longrightarrow> k \<le> hm \<Longrightarrow>
   \<not> eqv (t ! probe_bucket hm start k) emptyv \<and> \<not> equalf (t ! probe_bucket hm start k) key"
proof (induction "hm + 1 - p" arbitrary: p)
  case 0
  then show ?case by simp
next
  case (Suc d)
  from Suc.prems have ple: "p \<le> hm" by simp
  from Suc.prems(1) ple
  have here: "\<not> eqv (t ! probe_bucket hm start p) emptyv" "\<not> equalf (t ! probe_bucket hm start p) key"
    and rest: "hashLookup2_loop t hm eqv equalf key emptyv (probe_bucket hm start (Suc p)) (Suc p) = None"
    by (auto simp: hashLookup2_loop.simps [of t hm eqv equalf key emptyv "probe_bucket hm start p" p]
          probe_bucket_Suc Let_def split: if_splits)
  show ?case
  proof (cases "k = p")
    case True
    with here show ?thesis by simp
  next
    case False
    with Suc.prems have "Suc p \<le> k" by simp
    moreover have "d = hm + 1 - Suc p" using Suc.hyps(2) by simp
    ultimately show ?thesis using Suc.hyps(1) [of "Suc p"] rest Suc.prems(3) by simp
  qed
qed

lemma hashLookup2_loop_Some:
  "hashLookup2_loop t hm eqv equalf key emptyv (probe_bucket hm start p) p = Some b \<Longrightarrow>
   \<exists>k. p \<le> k \<and> k \<le> hm \<and> b = probe_bucket hm start k \<and>
       (eqv (t ! b) emptyv \<or> equalf (t ! b) key)"
proof (induction "hm + 1 - p" arbitrary: p)
  case 0
  then show ?case by (simp add: hashLookup2_loop.simps [of t hm eqv equalf key emptyv _ p])
next
  case (Suc d)
  from Suc.hyps(2) have ple: "p \<le> hm" by simp
  show ?case
  proof (cases "eqv (t ! probe_bucket hm start p) emptyv \<or> equalf (t ! probe_bucket hm start p) key")
    case True
    with Suc.prems ple have "b = probe_bucket hm start p"
      by (auto simp: hashLookup2_loop.simps [of t hm eqv equalf key emptyv "probe_bucket hm start p" p]
            Let_def split: if_splits)
    with True ple show ?thesis by auto
  next
    case False
    with Suc.prems ple
    have "hashLookup2_loop t hm eqv equalf key emptyv (probe_bucket hm start (Suc p)) (Suc p) = Some b"
      by (auto simp: hashLookup2_loop.simps [of t hm eqv equalf key emptyv "probe_bucket hm start p" p]
            probe_bucket_Suc Let_def split: if_splits)
    moreover have "d = hm + 1 - Suc p" using Suc.hyps(2) by simp
    ultimately obtain k where "Suc p \<le> k" "k \<le> hm" "b = probe_bucket hm start k"
      "eqv (t ! b) emptyv \<or> equalf (t ! b) key"
      using Suc.hyps(1) [of "Suc p"] by blast
    then show ?thesis by (intro exI [of _ k]) auto
  qed
qed

lemma hashLookup2_slot:
  assumes "buckets = 2 ^ n"
    and "\<exists>i<buckets. eqv (table ! i) emptyv \<or> equalf (table ! i) key"
  shows "(\<exists>k<buckets. \<exists>b<buckets.
            hashLookup2 table buckets hash eqv equalf key emptyv = Some b \<and>
            b = probe_bucket (buckets - 1) (hash key AND (buckets - 1)) k \<and>
            (eqv (table ! b) emptyv \<or> equalf (table ! b) key)) \<and>
         probe_bucket (buckets - 1) (hash key AND (buckets - 1)) ` {0..<buckets} = {0..<buckets}"
proof -
  let ?hm = "buckets - 1"
  let ?s0 = "hash key AND ?hm"
  have start: "?s0 < 2 ^ n" using and_hashmod [of "hash key" n] assms(1) by simp
  have surj: "probe_bucket ?hm ?s0 ` {0..<buckets} = {0..<buckets}"
    using probe_bucket_surj [OF start] assms(1) by simp
  from assms(2) obtain i where i: "i < buckets" "eqv (table ! i) emptyv \<or> equalf (table ! i) key"
    by blast
  from i(1) surj obtain k where k: "k < buckets" "probe_bucket ?hm ?s0 k = i"
    by (metis (no_types, lifting) atLeastLessThan_iff imageE zero_le)
  have start: "hashLookup2 table buckets hash eqv equalf key emptyv =
      hashLookup2_loop table ?hm eqv equalf key emptyv (probe_bucket ?hm ?s0 0) 0"
    by (simp add: hashLookup2_def probe_bucket_def Let_def)
  have "hashLookup2 table buckets hash eqv equalf key emptyv \<noteq> None"
  proof
    assume "hashLookup2 table buckets hash eqv equalf key emptyv = None"
    then have "\<not> eqv (table ! probe_bucket ?hm ?s0 k) emptyv \<and> \<not> equalf (table ! probe_bucket ?hm ?s0 k) key"
      using hashLookup2_loop_None [of table ?hm eqv equalf key emptyv ?s0 0 k] k(1) start by simp
    with k(2) i(2) show False by simp
  qed
  then obtain b where b: "hashLookup2 table buckets hash eqv equalf key emptyv = Some b" by blast
  then obtain k' where k': "k' \<le> ?hm" "b = probe_bucket ?hm ?s0 k'"
      "eqv (table ! b) emptyv \<or> equalf (table ! b) key"
    using hashLookup2_loop_Some [of table ?hm eqv equalf key emptyv ?s0 0 b] start by auto
  have kb: "k' < buckets" using k'(1) i(1) by simp
  then have "b \<in> {0..<buckets}" using surj k'(2) by (metis atLeastLessThan_iff imageI zero_le)
  then have "b < buckets" by simp
  with b k' kb surj show ?thesis by blast
qed

text \<open>
  Claim C10. For a power-of-two bucket count and a table holding at least one slot that is
  empty or equal to the key, \<^verbatim>\<open>hashLookup2\<close> returns a slot (never the null pointer) found
  within \<open>buckets\<close> probes, and that slot is empty or matches the key; the probe sequence
  visits every bucket.
\<close>

theorem hashLookup2_finds_slot:
  assumes "buckets = 2 ^ n"
    and "\<exists>i<buckets. eqv (table ! i) emptyv \<or> equalf (table ! i) key"
  shows "(\<exists>k<buckets. \<exists>b<buckets.
            hashLookup2 table buckets hash eqv equalf key emptyv = Some b \<and>
            b = probe_bucket (buckets - 1) (hash key AND (buckets - 1)) k \<and>
            (eqv (table ! b) emptyv \<or> equalf (table ! b) key)) \<and>
         probe_bucket (buckets - 1) (hash key AND (buckets - 1)) ` {0..<buckets} = {0..<buckets}"
  using assms by (rule hashLookup2_slot)

theorem hashLookup2_finds_slot_witness:
  "(4::nat) = 2 ^ 2 \<and>
   (\<exists>i<4. [1, 2, 0, 3::nat] ! i = 0 \<or> [1, 2, 0, 3::nat] ! i = 7) \<and>
   (\<exists>k<4. \<exists>b<4.
      hashLookup2 [1, 2, 0, 3::nat] 4 (\<lambda>x. x) (=) (=) 7 0 = Some b \<and>
      b = probe_bucket (4 - 1) ((\<lambda>x. x) 7 AND (4 - 1)) k \<and>
      ([1, 2, 0, 3::nat] ! b = 0 \<or> [1, 2, 0, 3::nat] ! b = 7)) \<and>
   probe_bucket (4 - 1) ((\<lambda>x. x) (7::nat) AND (4 - 1)) ` {0..<4} = {0..<4}"
proof -
  have h1: "(4::nat) = 2 ^ 2" by simp
  have h2: "\<exists>i<4. [1, 2, 0, 3::nat] ! i = 0 \<or> [1, 2, 0, 3::nat] ! i = 7"
    by (rule exI [of _ 2]) simp
  from hashLookup2_finds_slot [where buckets = 4 and n = 2 and eqv = "(=)" and equalf = "(=)"
      and table = "[1, 2, 0, 3::nat]" and emptyv = 0 and key = 7 and hash = "\<lambda>x. x", OF h1 h2]
    h1 h2 show ?thesis by blast
qed

subsection \<open>\<^verbatim>\<open>sortEdgeCollapses\<close> is a stable counting sort on the radix key\<close>

lemma collapse_key_less: "collapse_key c < 2 ^ sort_bits"
proof -
  have "unat (drop_bit 21 w) < 2 ^ 11" for w :: "32 word"
  proof -
    have "unat w < 2 ^ 32" using unsigned_less [of w] by simp
    then have "unat w div 2 ^ 21 < 2 ^ 11" by simp
    then show ?thesis by (subst unat_drop_bit_eq) (simp add: drop_bit_eq_div)
  qed
  then show ?thesis
    by (simp add: collapse_key_def sort_bits_def)
qed


lemma card_less_Suc_pred:
  "card {l::nat. l < Suc m \<and> P l} =
     (if P m then Suc (card {l. l < m \<and> P l}) else card {l. l < m \<and> P l})"
proof -
  have fin: "finite {l. l < m \<and> P l}" by simp
  have "{l. l < Suc m \<and> P l} = (if P m then insert m {l. l < m \<and> P l} else {l. l < m \<and> P l})"
    by (auto simp: less_Suc_eq)
  then show ?thesis using fin by (simp add: card_insert_if)
qed

lemma card_less_pred_le: "card {l::nat. l < m \<and> P l} \<le> m"
proof -
  have "card {l. l < m \<and> P l} \<le> card {l. l < m}"
    by (rule card_mono) auto
  then show ?thesis by simp
qed

lemma card_less_split:
  "card {l::nat. l < n \<and> f l < Suc (k::nat)} = card {l. l < n \<and> f l < k} + card {l. l < n \<and> f l = k}"
proof -
  have "{l. l < n \<and> f l < Suc k} = {l. l < n \<and> f l < k} \<union> {l. l < n \<and> f l = k}"
    by auto
  moreover have "{l. l < n \<and> f l < k} \<inter> {l. l < n \<and> f l = k} = {}" by auto
  ultimately show ?thesis by (simp add: card_Un_disjoint)
qed

lemma fold_upt_Suc: "fold f [0..<Suc m] s = f m (fold f [0..<m] s)"
  by simp

lemma histogram_fill_count:
  assumes "m < 2 ^ 32"
  shows "length (histogram_fill cs m) = 2 ^ sort_bits \<and>
         (\<forall>k<2 ^ sort_bits. histogram_fill cs m ! k = card {l. l < m \<and> collapse_key (cs ! l) = k})"
  using assms
proof (induction m)
  case 0
  then show ?case by (simp add: histogram_fill_def)
next
  case (Suc m)
  let ?h = "histogram_fill cs m"
  let ?key = "collapse_key (cs ! m)"
  have IH: "length ?h = 2 ^ sort_bits"
    "\<And>k. k < 2 ^ sort_bits \<Longrightarrow> ?h ! k = card {l. l < m \<and> collapse_key (cs ! l) = k}"
    using Suc by auto
  have step: "histogram_fill cs (Suc m) = ?h[?key := (?h ! ?key + 1) mod 2 ^ 32]"
    by (simp add: histogram_fill_def Let_def)
  have key: "?key < 2 ^ sort_bits" by (rule collapse_key_less)
  have "?h ! ?key \<le> m" using IH(2) [OF key] card_less_pred_le [of m] by simp
  then have nomod: "(?h ! ?key + 1) mod 2 ^ 32 = ?h ! ?key + 1"
    using Suc.prems by simp
  show ?case
  proof (intro conjI allI impI)
    show "length (histogram_fill cs (Suc m)) = 2 ^ sort_bits"
      using IH(1) by (simp add: step)
  next
    fix k assume k: "k < (2::nat) ^ sort_bits"
    show "histogram_fill cs (Suc m) ! k = card {l. l < Suc m \<and> collapse_key (cs ! l) = k}"
      unfolding step nomod card_less_Suc_pred
      using IH(1) IH(2) [OF k] k by (simp add: nth_list_update)
  qed
qed

lemma histogram_offsets_prefix:
  assumes len: "length h = 2 ^ sort_bits"
    and cnt: "\<And>k. k < 2 ^ sort_bits \<Longrightarrow> h ! k = card {l::nat. l < n \<and> f l = k}"
    and n: "n < 2 ^ 32" and i: "i \<le> 2 ^ sort_bits"
  shows "\<exists>h'. fold (\<lambda>i (histogram, histogram_sum).
             let count = histogram ! i
             in (histogram[i := histogram_sum mod 2 ^ 32], histogram_sum + count))
           [0..<i] (h, 0) = (h', card {l. l < n \<and> f l < i}) \<and>
         length h' = 2 ^ sort_bits \<and>
         (\<forall>k<i. h' ! k = card {l. l < n \<and> f l < k}) \<and>
         (\<forall>k. i \<le> k \<longrightarrow> h' ! k = h ! k)"
  using i
proof (induction i)
  case 0
  then show ?case using len by simp
next
  case (Suc i)
  let ?g = "\<lambda>i (histogram, histogram_sum).
             let count = histogram ! i
             in (histogram[i := histogram_sum mod 2 ^ 32], histogram_sum + (count::nat))"
  from Suc obtain h' where h':
    "fold ?g [0..<i] (h, 0) = (h', card {l. l < n \<and> f l < i})"
    "length h' = 2 ^ sort_bits"
    "\<And>k. k < i \<Longrightarrow> h' ! k = card {l. l < n \<and> f l < k}"
    "\<And>k. i \<le> k \<Longrightarrow> h' ! k = h ! k"
    by auto
  let ?s = "card {l. l < n \<and> f l < i}"
  have "?s \<le> n" by (rule card_less_pred_le)
  then have nomod: "?s mod 2 ^ 32 = ?s" using n by simp
  have ilt: "i < 2 ^ sort_bits" using Suc.prems by simp
  have "fold ?g [0..<Suc i] (h, 0) = ?g i (h', ?s)"
    using h'(1) by simp
  also have "\<dots> = (h'[i := ?s], ?s + h ! i)"
    using h'(4) [of i] nomod by (simp add: Let_def)
  also have "?s + h ! i = card {l. l < n \<and> f l < Suc i}"
    using cnt [OF ilt] by (simp add: card_less_split)
  finally have eq: "fold ?g [0..<Suc i] (h, 0) = (h'[i := ?s], card {l. l < n \<and> f l < Suc i})" .
  show ?case
  proof (intro exI [of _ "h'[i := ?s]"] conjI allI impI)
    show "fold ?g [0..<Suc i] (h, 0) = (h'[i := ?s], card {l. l < n \<and> f l < Suc i})" by (rule eq)
    show "length (h'[i := ?s]) = 2 ^ sort_bits" using h'(2) by simp
  next
    fix k assume "k < Suc i"
    then show "h'[i := ?s] ! k = card {l. l < n \<and> f l < k}"
      using h'(2,3) ilt by (cases "k = i") (auto simp: less_Suc_eq)
  next
    fix k assume "Suc i \<le> k"
    then show "h'[i := ?s] ! k = h ! k" using h'(4) [of k] by simp
  qed
qed

lemma histogram_offsets_result:
  assumes n: "n < 2 ^ 32"
  shows "length (fst (histogram_offsets (histogram_fill cs n))) = 2 ^ sort_bits \<and>
         (\<forall>k<2 ^ sort_bits. fst (histogram_offsets (histogram_fill cs n)) ! k =
             card {l. l < n \<and> collapse_key (cs ! l) < k})"
proof -
  from histogram_fill_count [OF n, of cs]
  have len: "length (histogram_fill cs n) = 2 ^ sort_bits"
    and cnt: "\<And>k. k < 2 ^ sort_bits \<Longrightarrow>
      histogram_fill cs n ! k = card {l. l < n \<and> collapse_key (cs ! l) = k}"
    by auto
  from histogram_offsets_prefix [of "histogram_fill cs n" n "\<lambda>l. collapse_key (cs ! l)" "2 ^ sort_bits",
      OF len cnt n]
  show ?thesis unfolding histogram_offsets_def by auto
qed


lemma sort_pos_less:
  assumes "i < n"
  shows "sort_pos cs n i < n"
proof -
  have "{l. l < n \<and> key_before cs l i} \<subset> {l. l < n}"
    using assms by (auto simp: key_before_def)
  then have "card {l. l < n \<and> key_before cs l i} < card {l. l < n}"
    by (intro psubset_card_mono) auto
  then show ?thesis by (simp add: sort_pos_def)
qed

lemma sort_pos_mono:
  assumes "i < n" and "key_before cs i j"
  shows "sort_pos cs n i < sort_pos cs n j"
proof -
  have "{l. l < n \<and> key_before cs l i} \<subset> {l. l < n \<and> key_before cs l j}"
    using assms by (auto simp: key_before_def)
  then show ?thesis
    unfolding sort_pos_def by (intro psubset_card_mono) auto
qed

lemma key_before_total: "i \<noteq> j \<Longrightarrow> key_before cs i j \<or> key_before cs j i"
  by (auto simp: key_before_def)

lemma sort_pos_neq:
  assumes "i < n" "j < n" "i \<noteq> j"
  shows "sort_pos cs n i \<noteq> sort_pos cs n j"
  using key_before_total [OF assms(3), of cs] sort_pos_mono [of i n cs j]
    sort_pos_mono [of j n cs i] assms by auto

lemma sort_pos_split:
  assumes "m < n"
  shows "card {l. l < n \<and> collapse_key (cs ! l) < collapse_key (cs ! m)} +
         card {l. l < m \<and> collapse_key (cs ! l) = collapse_key (cs ! m)} = sort_pos cs n m"
proof -
  let ?A = "{l. l < n \<and> collapse_key (cs ! l) < collapse_key (cs ! m)}"
  let ?B = "{l. l < m \<and> collapse_key (cs ! l) = collapse_key (cs ! m)}"
  have "{l. l < n \<and> key_before cs l m} = ?A \<union> ?B"
    using assms by (auto simp: key_before_def)
  moreover have "?A \<inter> ?B = {}" by auto
  ultimately show ?thesis by (simp add: sort_pos_def card_Un_disjoint)
qed

lemma sort_scatter_inv:
  assumes n: "n < 2 ^ 32" and len: "n \<le> length so"
    and hlen: "length h = 2 ^ sort_bits"
    and h: "\<And>k. k < 2 ^ sort_bits \<Longrightarrow> h ! k = card {l. l < n \<and> collapse_key (cs ! l) < k}"
    and m: "m \<le> n"
  shows "\<exists>so' h'. sort_scatter cs m (so, h) = (so', h') \<and>
           length so' = length so \<and> length h' = 2 ^ sort_bits \<and>
           (\<forall>k<2 ^ sort_bits. h' ! k = card {l. l < n \<and> collapse_key (cs ! l) < k} +
                                       card {l. l < m \<and> collapse_key (cs ! l) = k}) \<and>
           (\<forall>i<m. so' ! sort_pos cs n i = i) \<and>
           (\<forall>p. p \<notin> sort_pos cs n ` {0..<m} \<longrightarrow> so' ! p = so ! p)"
  using m
proof (induction m)
  case 0
  then show ?case using hlen h by (simp add: sort_scatter_def)
next
  case (Suc m)
  then obtain so' h' where st:
    "sort_scatter cs m (so, h) = (so', h')"
    "length so' = length so" "length h' = 2 ^ sort_bits"
    "\<And>k. k < 2 ^ sort_bits \<Longrightarrow> h' ! k = card {l. l < n \<and> collapse_key (cs ! l) < k} +
                                       card {l. l < m \<and> collapse_key (cs ! l) = k}"
    "\<And>i. i < m \<Longrightarrow> so' ! sort_pos cs n i = i"
    "\<And>p. p \<notin> sort_pos cs n ` {0..<m} \<Longrightarrow> so' ! p = so ! p"
    by auto
  let ?key = "collapse_key (cs ! m)"
  have mn: "m < n" using Suc.prems by simp
  have key: "?key < 2 ^ sort_bits" by (rule collapse_key_less)
  have hk: "h' ! ?key = sort_pos cs n m"
    using st(4) [OF key] sort_pos_split [OF mn, of cs] by simp
  have pm: "sort_pos cs n m < n" by (rule sort_pos_less [OF mn])
  have nomod: "m mod 2 ^ 32 = m" "(h' ! ?key + 1) mod 2 ^ 32 = h' ! ?key + 1"
    using mn n pm hk by auto
  let ?so = "so'[sort_pos cs n m := m]"
  let ?h = "h'[?key := sort_pos cs n m + 1]"
  have step: "sort_scatter cs (Suc m) (so, h) = (?so, ?h)"
    using st(1) nomod hk by (simp add: sort_scatter_def Let_def)
  have c2: "length ?so = length so" using st(2) by simp
  have c3: "length ?h = 2 ^ sort_bits" using st(3) by simp
  have c4: "\<forall>k<2 ^ sort_bits. ?h ! k = card {l. l < n \<and> collapse_key (cs ! l) < k} +
                    card {l. l < Suc m \<and> collapse_key (cs ! l) = k}"
  proof (intro allI impI)
    fix k assume k: "k < (2::nat) ^ sort_bits"
    show "?h ! k = card {l. l < n \<and> collapse_key (cs ! l) < k} +
                    card {l. l < Suc m \<and> collapse_key (cs ! l) = k}"
    proof (cases "k = ?key")
      case True
      then show ?thesis
        using st(3) key st(4) [OF key] hk by (simp add: card_less_Suc_pred)
    next
      case False
      then show ?thesis
        using st(4) [OF k] by (simp add: card_less_Suc_pred)
    qed
  qed
  have c5: "\<forall>i<Suc m. ?so ! sort_pos cs n i = i"
  proof (intro allI impI)
    fix i assume i: "i < Suc m"
    show "?so ! sort_pos cs n i = i"
    proof (cases "i = m")
      case True
      then show ?thesis using pm len st(2) by simp
    next
      case False
      then have im: "i < m" using i by simp
      then have "sort_pos cs n i \<noteq> sort_pos cs n m"
        using sort_pos_neq [of i n m cs] mn by simp
      then show ?thesis using st(5) [OF im] by simp
    qed
  qed
  have c6: "\<forall>p. p \<notin> sort_pos cs n ` {0..<Suc m} \<longrightarrow> ?so ! p = so ! p"
  proof (intro allI impI)
    fix p assume p: "p \<notin> sort_pos cs n ` {0..<Suc m}"
    then have "p \<noteq> sort_pos cs n m" "p \<notin> sort_pos cs n ` {0..<m}" by auto
    then show "?so ! p = so ! p" using st(6) by simp
  qed
  show ?case
    using step c2 c3 c4 c5 c6
    by - (rule exI [of _ ?so], rule exI [of _ ?h], (intro conjI; assumption))
qed

lemma sortEdgeCollapses_pos:
  assumes n: "n < 2 ^ 32" and len: "n \<le> length so"
  shows "length (sortEdgeCollapses so cs n) = length so"
    and "\<And>i. i < n \<Longrightarrow> sortEdgeCollapses so cs n ! sort_pos cs n i = i"
    and "\<And>p. n \<le> p \<Longrightarrow> sortEdgeCollapses so cs n ! p = so ! p"
proof -
  let ?h = "fst (histogram_offsets (histogram_fill cs n))"
  from histogram_offsets_result [OF n, of cs]
  have hlen: "length ?h = 2 ^ sort_bits"
    and h: "\<And>k. k < 2 ^ sort_bits \<Longrightarrow> ?h ! k = card {l. l < n \<and> collapse_key (cs ! l) < k}"
    by auto
  from sort_scatter_inv [OF n len hlen h, of n]
  obtain so' h' where st: "sort_scatter cs n (so, ?h) = (so', h')"
    "length so' = length so"
    "\<And>i. i < n \<Longrightarrow> so' ! sort_pos cs n i = i"
    "\<And>p. p \<notin> sort_pos cs n ` {0..<n} \<Longrightarrow> so' ! p = so ! p"
    by auto
  have res: "sortEdgeCollapses so cs n = so'"
    using st(1) by (cases "histogram_offsets (histogram_fill cs n)") (simp add: sortEdgeCollapses_def)
  show "length (sortEdgeCollapses so cs n) = length so" using st(2) res by simp
  show "\<And>i. i < n \<Longrightarrow> sortEdgeCollapses so cs n ! sort_pos cs n i = i" using st(3) res by simp
  show "\<And>p. n \<le> p \<Longrightarrow> sortEdgeCollapses so cs n ! p = so ! p"
  proof -
    fix p assume "n \<le> p"
    then have "p \<notin> sort_pos cs n ` {0..<n}" using sort_pos_less [of _ n cs] by fastforce
    then show "sortEdgeCollapses so cs n ! p = so ! p" using st(4) res by simp
  qed
qed

lemma sort_pos_bij: "sort_pos cs n ` {0..<n} = {0..<n}"
proof -
  have inj: "inj_on (sort_pos cs n) {0..<n}"
    by (rule inj_onI) (metis atLeastLessThan_iff sort_pos_neq)
  have sub: "sort_pos cs n ` {0..<n} \<subseteq> {0..<n}"
    using sort_pos_less [of _ n cs] by auto
  have "card (sort_pos cs n ` {0..<n}) = card {0..<n}" using inj by (rule card_image)
  with sub show ?thesis by (simp add: card_subset_eq)
qed

lemma sortEdgeCollapses_nth:
  assumes n: "n < 2 ^ 32" and len: "n \<le> length so" and p: "p < n"
  shows "\<exists>i<n. sort_pos cs n i = p \<and> sortEdgeCollapses so cs n ! p = i"
proof -
  from p sort_pos_bij [of cs n] obtain i where "i < n" "sort_pos cs n i = p"
    by (metis (no_types, lifting) atLeastLessThan_iff imageE zero_le)
  then show ?thesis using sortEdgeCollapses_pos(2) [OF n len, of i cs] by auto
qed


lemma sort_pos_less_iff:
  assumes "i < n" "j < n" "sort_pos cs n i < sort_pos cs n j"
  shows "key_before cs i j"
proof (rule ccontr)
  assume nb: "\<not> key_before cs i j"
  have "i \<noteq> j" using assms(3) by auto
  then have "key_before cs j i" using key_before_total [of i j cs] nb by simp
  then have "sort_pos cs n j < sort_pos cs n i" using sort_pos_mono [of j n cs i] assms(2) by simp
  with assms(3) show False by simp
qed

lemma unat_shl1: "unat (push_bit 1 (w::32 word)) = (2 * unat w) mod 2 ^ 32"
proof -
  have "unat (push_bit 1 w) = take_bit 32 (push_bit 1 (unat w))"
    by (subst unsigned_push_bit_eq) simp
  then show ?thesis by (simp add: take_bit_eq_mod push_bit_eq_mult mult.commute)
qed

lemma unat_shr21: "unat (drop_bit 21 (w::32 word)) = unat w div 2 ^ 21"
  by (subst unat_drop_bit_eq) (simp add: drop_bit_eq_div)

lemma unat_and_mag: "unat ((w::32 word) AND 0x7FFFFFFF) = unat w mod 2 ^ 31"
proof -
  have "unat (w AND 0x7FFFFFFF) = unat w AND unat (0x7FFFFFFF :: 32 word)"
    by (rule unsigned_and_eq)
  also have "unat (0x7FFFFFFF :: 32 word) = mask 31" by (simp add: mask_eq_exp_minus_1)
  also have "unat w AND mask 31 = unat w mod 2 ^ 31"
    by (simp add: take_bit_eq_mod flip: take_bit_eq_mask)
  finally show ?thesis .
qed

lemma bit31_iff: "bit (w::32 word) 31 \<longleftrightarrow> 2 ^ 31 \<le> unat w"
proof -
  have lt: "unat w < 2 ^ 32" using unsigned_less [of w] by simp
  have "bit w 31 \<longleftrightarrow> bit (unat w) 31" by (simp add: bit_unsigned_iff)
  also have "\<dots> \<longleftrightarrow> odd (unat w div 2 ^ 31)" by (simp add: bit_iff_odd)
  also have "\<dots> \<longleftrightarrow> 2 ^ 31 \<le> unat w"
  proof (cases "2 ^ 31 \<le> unat w")
    case True
    then have "unat w div 2 ^ 31 = 1" using lt by (simp add: div_nat_eqI)
    with True show ?thesis by simp
  next
    case False
    then have "unat w div 2 ^ 31 = 0" by simp
    with False show ?thesis by simp
  qed
  finally show ?thesis .
qed


lemma collapse_key_nonneg:
  assumes "\<not> bit (errorui c) 31"
  shows "collapse_key c = unat (errorui c) div 2 ^ 20"
proof -
  have lt: "unat (errorui c) < 2 ^ 31" using assms by (simp add: bit31_iff)
  have sh: "32 - sort_bits = 21" by (simp add: sort_bits_def)
  have "collapse_key c = ((2 * unat (errorui c)) mod 2 ^ 32) div 2 ^ 21"
    by (simp only: collapse_key_def sh unat_shr21 unat_shl1)
  also have "\<dots> = (2 * unat (errorui c)) div 2 ^ 21" using lt by simp
  also have "\<dots> = unat (errorui c) div 2 ^ 20" by simp
  finally show ?thesis .
qed

lemma float_ord_nonneg:
  assumes "\<not> bit (f::float) 31"
  shows "float_ord f = int (unat f)"
proof -
  have lt: "unat f < 2 ^ 31" using assms by (simp add: bit31_iff)
  have "float_ord f = uint (f AND 0x7FFFFFFF)" using assms by (simp only: float_ord_def if_False)
  also have "\<dots> = int (unat (f AND 0x7FFFFFFF))" by (simp only: uint_nat)
  also have "\<dots> = int (unat f mod 2 ^ 31)" by (simp only: unat_and_mag)
  also have "\<dots> = int (unat f)" using lt by simp
  finally show ?thesis .
qed

lemma collapse_key_less_float_lt:
  assumes "\<not> bit (errorui a) 31" "\<not> bit (errorui b) 31"
    and "\<not> float_is_nan (errorui a)" "\<not> float_is_nan (errorui b)"
    and "collapse_key a < collapse_key b"
  shows "float_lt (errorui a) (errorui b)"
proof -
  have "unat (errorui a) div 2 ^ 20 < unat (errorui b) div 2 ^ 20"
    using assms(1,2,5) by (simp add: collapse_key_nonneg)
  then have "unat (errorui a) < unat (errorui b)"
    by (metis div_le_mono not_less order_less_imp_le)
  then have "float_ord (errorui a) < float_ord (errorui b)"
    by (simp only: float_ord_nonneg [OF assms(1)] float_ord_nonneg [OF assms(2)] of_nat_less_iff)
  then show ?thesis
    using assms(3,4) by (simp only: float_lt_def) simp
qed

lemma sortEdgeCollapses_props:
  fixes cs :: "Collapse list"
  assumes n: "n < 2 ^ 32" and len: "n \<le> length so"
  defines "res \<equiv> take n (sortEdgeCollapses so cs n)"
  shows "length res = n" and "distinct res" and "set res = {0..<n}"
    and "\<And>p q. p < q \<Longrightarrow> q < n \<Longrightarrow> key_before cs (res ! p) (res ! q)"
proof -
  have nth: "\<exists>i<n. sort_pos cs n i = p \<and> res ! p = i" if "p < n" for p
    using sortEdgeCollapses_nth [OF n len that, of cs] that by (simp add: res_def)
  show l: "length res = n"
    using sortEdgeCollapses_pos(1) [OF n len, of cs] len by (simp add: res_def)
  show "distinct res"
    unfolding distinct_conv_nth l
  proof (intro allI impI)
    fix p q assume "p < n" "q < n" "p \<noteq> q"
    then show "res ! p \<noteq> res ! q" using nth [of p] nth [of q] by auto
  qed
  show "set res = {0..<n}"
  proof
    show "set res \<subseteq> {0..<n}"
      using nth l by (auto simp: in_set_conv_nth)
    show "{0..<n} \<subseteq> set res"
    proof
      fix i assume "i \<in> {0..<n}"
      then have i: "i < n" by simp
      then have "sort_pos cs n i < n" by (rule sort_pos_less)
      moreover have "res ! sort_pos cs n i = i"
        using sortEdgeCollapses_pos(2) [OF n len i, of cs] sort_pos_less [OF i, of cs]
        by (simp add: res_def)
      ultimately show "i \<in> set res" using l by (metis nth_mem)
    qed
  qed
  show "\<And>p q. p < q \<Longrightarrow> q < n \<Longrightarrow> key_before cs (res ! p) (res ! q)"
  proof -
    fix p q assume pq: "p < q" "q < n"
    then have "p < n" by simp
    from nth [OF this] obtain i where i: "i < n" "sort_pos cs n i = p" "res ! p = i" by blast
    from nth [OF pq(2)] obtain j where j: "j < n" "sort_pos cs n j = q" "res ! q = j" by blast
    show "key_before cs (res ! p) (res ! q)"
      using sort_pos_less_iff [of i n j cs] i j pq by simp
  qed
qed

text \<open>
  Claim C5, as the code has it. For fewer than \<open>2 ^ 32\<close> records, the first
  \<open>collapse_count\<close> entries of \<^verbatim>\<open>sort_order\<close> are a permutation of the record indices, in
  ascending order of the 11-bit radix key, records with equal keys keeping their input
  order. The order is ascending in the error only between records of different keys
  (for non-negative errors that are not NaN): the key drops the low 20 bits of the error.
\<close>

theorem sortEdgeCollapses_stable_by_key:
  assumes "collapse_count < 2 ^ 32" and "collapse_count \<le> length sort_order"
    and "collapse_count \<le> length collapses"
  shows "let res = take collapse_count (sortEdgeCollapses sort_order collapses collapse_count);
             key = (\<lambda>i. collapse_key (collapses ! i));
             err = (\<lambda>i. errorui (collapses ! i))
         in length res = collapse_count \<and> distinct res \<and> set res = {0..<collapse_count} \<and>
            (\<forall>p q. p < q \<and> q < collapse_count \<longrightarrow> key (res ! p) \<le> key (res ! q)) \<and>
            (\<forall>p q. p < q \<and> q < collapse_count \<and> key (res ! p) = key (res ! q) \<longrightarrow>
                   res ! p < res ! q) \<and>
            (\<forall>p q. p < q \<and> q < collapse_count \<and> key (res ! p) \<noteq> key (res ! q) \<and>
                   \<not> bit (err (res ! p)) 31 \<and> \<not> bit (err (res ! q)) 31 \<and>
                   \<not> float_is_nan (err (res ! p)) \<and> \<not> float_is_nan (err (res ! q)) \<longrightarrow>
                   float_lt (err (res ! p)) (err (res ! q)))"
proof -
  note P = sortEdgeCollapses_props [where cs = collapses, OF assms(1,2)]
  have kb: "key_before collapses (take collapse_count (sortEdgeCollapses sort_order collapses collapse_count) ! p)
              (take collapse_count (sortEdgeCollapses sort_order collapses collapse_count) ! q)"
    if "p < q" "q < collapse_count" for p q
    using P(4) [OF that] .
  show ?thesis
    unfolding Let_def
  proof (intro conjI allI impI)
    fix p q
    assume "p < q \<and> q < collapse_count"
    then show "collapse_key (collapses ! (take collapse_count (sortEdgeCollapses sort_order collapses collapse_count) ! p))
        \<le> collapse_key (collapses ! (take collapse_count (sortEdgeCollapses sort_order collapses collapse_count) ! q))"
      using kb [of p q] by (auto simp: key_before_def)
  next
    fix p q
    assume "p < q \<and> q < collapse_count \<and>
      collapse_key (collapses ! (take collapse_count (sortEdgeCollapses sort_order collapses collapse_count) ! p)) =
      collapse_key (collapses ! (take collapse_count (sortEdgeCollapses sort_order collapses collapse_count) ! q))"
    then show "take collapse_count (sortEdgeCollapses sort_order collapses collapse_count) ! p
        < take collapse_count (sortEdgeCollapses sort_order collapses collapse_count) ! q"
      using kb [of p q] by (auto simp: key_before_def)
  next
    fix p q
    let ?r = "take collapse_count (sortEdgeCollapses sort_order collapses collapse_count)"
    assume a: "p < q \<and> q < collapse_count \<and>
      collapse_key (collapses ! (?r ! p)) \<noteq> collapse_key (collapses ! (?r ! q)) \<and>
      \<not> bit (errorui (collapses ! (?r ! p))) 31 \<and> \<not> bit (errorui (collapses ! (?r ! q))) 31 \<and>
      \<not> float_is_nan (errorui (collapses ! (?r ! p))) \<and> \<not> float_is_nan (errorui (collapses ! (?r ! q)))"
    then have "collapse_key (collapses ! (?r ! p)) < collapse_key (collapses ! (?r ! q))"
      using kb [of p q] by (auto simp: key_before_def)
    then show "float_lt (errorui (collapses ! (?r ! p))) (errorui (collapses ! (?r ! q)))"
      using a by (intro collapse_key_less_float_lt) auto
  qed (use P in auto)
qed


theorem sortEdgeCollapses_stable_by_key_witness:
  "(2::nat) < 2 ^ 32 \<and> (2::nat) \<le> length [0, 0::nat] \<and>
   (2::nat) \<le> length [\<lparr>v0 = 0, v1 = 1, errorui = 0x3F8CCCCD\<rparr>, \<lparr>v0 = 1, v1 = 2, errorui = 0x3F800000\<rparr>] \<and>
   (let res = take 2 (sortEdgeCollapses [0, 0]
                [\<lparr>v0 = 0, v1 = 1, errorui = 0x3F8CCCCD\<rparr>, \<lparr>v0 = 1, v1 = 2, errorui = 0x3F800000\<rparr>] 2);
        key = (\<lambda>i. collapse_key ([\<lparr>v0 = 0, v1 = 1, errorui = 0x3F8CCCCD\<rparr>, \<lparr>v0 = 1, v1 = 2, errorui = 0x3F800000\<rparr>] ! i));
        err = (\<lambda>i. errorui ([\<lparr>v0 = 0, v1 = 1, errorui = 0x3F8CCCCD\<rparr>, \<lparr>v0 = 1, v1 = 2, errorui = 0x3F800000\<rparr>] ! i))
    in length res = 2 \<and> distinct res \<and> set res = {0..<2} \<and>
       (\<forall>p q. p < q \<and> q < 2 \<longrightarrow> key (res ! p) \<le> key (res ! q)) \<and>
       (\<forall>p q. p < q \<and> q < 2 \<and> key (res ! p) = key (res ! q) \<longrightarrow> res ! p < res ! q) \<and>
       (\<forall>p q. p < q \<and> q < 2 \<and> key (res ! p) \<noteq> key (res ! q) \<and>
              \<not> bit (err (res ! p)) 31 \<and> \<not> bit (err (res ! q)) 31 \<and>
              \<not> float_is_nan (err (res ! p)) \<and> \<not> float_is_nan (err (res ! q)) \<longrightarrow>
              float_lt (err (res ! p)) (err (res ! q))))"
proof -
  let ?cs = "[\<lparr>v0 = 0, v1 = 1, errorui = 0x3F8CCCCD\<rparr>, \<lparr>v0 = 1, v1 = 2, errorui = 0x3F800000\<rparr>]"
  have h1: "(2::nat) < 2 ^ 32" by simp
  have h2: "(2::nat) \<le> length [0, 0::nat]" by simp
  have h3: "(2::nat) \<le> length ?cs" by simp
  from sortEdgeCollapses_stable_by_key [OF h1 h2 h3] h1 h2 h3
  show ?thesis by - (intro conjI; assumption)
qed

text \<open>
  The errors \<open>1.1\<close> (\<open>0x3F8CCCCD\<close>) and \<open>1.0\<close> (\<open>0x3F800000\<close>) have the same radix key, so
  they stay in input order, which is descending in error.
\<close>

theorem sortEdgeCollapses_not_ascending_error:
  "sortEdgeCollapses [0, 0]
     [\<lparr>v0 = 0, v1 = 1, errorui = 0x3F8CCCCD\<rparr>, \<lparr>v0 = 1, v1 = 2, errorui = 0x3F800000\<rparr>] 2 = [0, 1] \<and>
   \<not> bit (0x3F8CCCCD :: float) 31 \<and> \<not> bit (0x3F800000 :: float) 31 \<and>
   float_lt 0x3F800000 0x3F8CCCCD \<and> \<not> float_le 0x3F8CCCCD 0x3F800000"
proof -
  let ?cs = "[\<lparr>v0 = 0, v1 = 1, errorui = 0x3F8CCCCD\<rparr>, \<lparr>v0 = 1, v1 = 2, errorui = 0x3F800000\<rparr>]"
  let ?r = "sortEdgeCollapses [0, 0] ?cs 2"
  have h1: "(2::nat) < 2 ^ 32" by simp
  have h2: "(2::nat) \<le> length [0, 0::nat]" by simp
  have len: "length ?r = 2"
    using sortEdgeCollapses_pos(1) [OF h1 h2, of ?cs] by simp
  then have tk: "take 2 ?r = ?r" by simp
  note P = sortEdgeCollapses_props [where cs = ?cs, OF h1 h2, unfolded tk]
  have k0: "collapse_key (?cs ! 0) = 1016" by (simp add: collapse_key_def sort_bits_def)
  have k1: "collapse_key (?cs ! 1) = 1016" by (simp add: collapse_key_def sort_bits_def)
  have mem: "?r ! 0 \<in> {0..<2}" "?r ! 1 \<in> {0..<2}"
    using P(3) len by (metis nth_mem zero_less_numeral, metis nth_mem one_less_numeral_iff semiring_norm(76))
  have keq: "collapse_key (?cs ! i) = 1016" if "i \<in> {0..<2}" for i
    using that k0 k1 by (cases "i = 0") (auto simp: less_Suc_eq numeral_2_eq_2)
  have "key_before ?cs (?r ! 0) (?r ! 1)" using P(4) [of 0 1] by simp
  then have "?r ! 0 < ?r ! 1"
    using keq [OF mem(1)] keq [OF mem(2)] by (simp add: key_before_def)
  with mem have "?r ! 0 = 0" "?r ! 1 = 1" by auto
  with len have res: "?r = [0, 1]"
    by (intro nth_equalityI) (auto simp: less_Suc_eq numeral_2_eq_2)
  have b: "\<not> bit (0x3F8CCCCD :: float) 31" "\<not> bit (0x3F800000 :: float) 31"
    by (simp_all add: bit31_iff)
  have lt: "float_lt 0x3F800000 0x3F8CCCCD"
    by (simp add: float_lt_def float_is_nan_def float_ord_nonneg b)
  have nle: "\<not> float_le 0x3F8CCCCD 0x3F800000"
    by (simp add: float_le_def float_is_nan_def float_ord_nonneg b)
  from res b lt nle show ?thesis by simp
qed

subsection \<open>The error limit of a pass\<close>

lemma float_not_gt_le:
  "\<not> float_is_nan a \<Longrightarrow> \<not> float_is_nan b \<Longrightarrow> \<not> float_gt a b \<Longrightarrow> float_le a b"
  by (auto simp: float_gt_def float_lt_def float_le_def)




lemma pass_error_limit_le_target:
  assumes "\<not> float_is_nan target_error"
    and "\<not> float_is_nan (pass_error_limit cs n order goal target_error)"
  shows "float_le (pass_error_limit cs n order goal target_error) target_error"
proof -
  define g where "g = (if goal < n then fmul (errorui (cs ! (order ! goal))) 0x3FC00000 else FLT_MAX)"
  have lim: "pass_error_limit cs n order goal target_error = (if float_gt g target_error then target_error else g)"
    by (simp add: pass_error_limit_def g_def Let_def)
  show ?thesis
  proof (cases "float_gt g target_error")
    case True
    then show ?thesis using assms(1) lim by (simp add: float_le_def)
  next
    case False
    then have "\<not> float_is_nan g" using assms(2) lim by simp
    then show ?thesis using False assms(1) lim by (simp add: float_not_gt_le)
  qed
qed






lemma rankEdgeCollapses_nth:
  assumes "m \<le> length cs"
  shows "length (rankEdgeCollapses cs m vp vq remap) = length cs \<and>
         (\<forall>i<length cs. rankEdgeCollapses cs m vp vq remap ! i =
            (if i < m then rank_collapse vp vq remap (cs ! i) else cs ! i))"
  using assms
proof (induction m)
  case 0
  then show ?case by (simp add: rankEdgeCollapses_def)
next
  case (Suc m)
  let ?r = "rankEdgeCollapses cs m vp vq remap"
  have IH: "length ?r = length cs"
    "\<And>i. i < length cs \<Longrightarrow> ?r ! i = (if i < m then rank_collapse vp vq remap (cs ! i) else cs ! i)"
    using Suc by auto
  have step: "rankEdgeCollapses cs (Suc m) vp vq remap = ?r[m := rank_collapse vp vq remap (?r ! m)]"
    by (simp add: rankEdgeCollapses_def)
  have m: "m < length cs" using Suc.prems by simp
  show ?case unfolding step using IH m by (auto simp: nth_list_update)
qed






subsection \<open>The set-up phase returns\<close>

lemma fold_option_snoc:
  "fold_option f (xs @ [x]) s = (case fold_option f xs s of None \<Rightarrow> None | Some s' \<Rightarrow> f x s')"
  by (induction xs arbitrary: s) (auto split: option.splits)

lemma fold_option_upt_Suc:
  "fold_option f [0..<Suc m] s =
     (case fold_option f [0..<m] s of None \<Rightarrow> None | Some s' \<Rightarrow> f m s')"
  by (simp add: fold_option_snoc)

lemma hashBuckets2_loop_pow2:
  "\<exists>j. hashBuckets2_loop (2 ^ k) count = Some (2 ^ j) \<and> count \<le> 2 ^ j"
proof (induction "count - 2 ^ k" arbitrary: k rule: less_induct)
  case less
  show ?case
  proof (cases "2 ^ k < count")
    case False
    then show ?thesis
      by (subst hashBuckets2_loop.simps) (auto intro: exI [of _ k])
  next
    case True
    have "count - 2 * p < count - p" if "0 < p" "p < count" for p :: nat
      using that by arith
    from this [of "2 ^ k"] have "count - 2 ^ Suc k < count - 2 ^ k" using True by simp
    from less [OF this] obtain j where "hashBuckets2_loop (2 ^ Suc k) count = Some (2 ^ j)" "count \<le> 2 ^ j"
      by blast
    with True show ?thesis
      by (subst hashBuckets2_loop.simps) (auto simp: mult.commute)
  qed
qed

lemma hashBuckets2_pow2: "\<exists>j. hashBuckets2 count = Some (2 ^ j) \<and> count \<le> 2 ^ j"
  using hashBuckets2_loop_pow2 [of 0 count] by (simp add: hashBuckets2_def)

lemma hashLookup2_Some:
  assumes "buckets = 2 ^ n" and "i < buckets"
    and "eqv (table ! i) emptyv \<or> equalf (table ! i) key"
  shows "\<exists>b<buckets. hashLookup2 table buckets hash eqv equalf key emptyv = Some b \<and>
           (eqv (table ! b) emptyv \<or> equalf (table ! b) key)"
proof -
  have ex: "\<exists>i<buckets. eqv (table ! i) emptyv \<or> equalf (table ! i) key"
    using assms(2,3) by blast
  from hashLookup2_slot [where buckets = buckets and n = n and eqv = eqv and equalf = equalf
      and table = table and emptyv = emptyv and key = key and hash = hash, OF assms(1) ex]
  show ?thesis by blast
qed

lemma empty_slot_exists:
  assumes "length (filter occ table) < length table"
  shows "\<exists>e<length table. \<not> occ (table ! e)"
proof (rule ccontr)
  assume "\<not> (\<exists>e<length table. \<not> occ (table ! e))"
  then have "\<forall>x\<in>set table. occ x" by (auto simp: in_set_conv_nth)
  then have "filter occ table = table" by simp
  with assms show False by simp
qed

lemma filter_update_le:
  "length (filter P (xs[e := v])) \<le> Suc (length (filter P xs))"
proof (cases "e < length xs")
  case False
  then show ?thesis by (simp add: not_less list_update_beyond)
next
  case True
  have a: "xs[e := v] = take e xs @ v # drop (Suc e) xs"
    using True by (rule upd_conv_take_nth_drop)
  have b: "xs = take e xs @ xs ! e # drop (Suc e) xs"
    using True by (rule id_take_nth_drop)
  have "length (filter P xs) =
      length (filter P (take e xs)) + length (filter P [xs ! e]) + length (filter P (drop (Suc e) xs))"
    by (subst b) simp
  moreover have "length (filter P (xs[e := v])) =
      length (filter P (take e xs)) + length (filter P [v]) + length (filter P (drop (Suc e) xs))"
    by (subst a) simp
  ultimately show ?thesis by simp
qed

lemma PositionHasher_equal_refl: "PositionHasher_equal vp stride i i"
  by (simp add: PositionHasher_equal_def)

lemma position_remap_step_inv:
  assumes inv: "remap_inv vp stride T i (table, remap)"
    and len: "length remap = n" and i: "i < n" and nT: "n \<le> T" and T: "T = 2 ^ k"
    and n: "n < 2 ^ 32"
  shows "\<exists>table' remap'. position_remap_step vp stride T i (table, remap) = Some (table', remap') \<and>
           remap_inv vp stride T (Suc i) (table', remap') \<and> length remap' = n"
proof -
  from inv have tl: "length table = T"
    and occ: "length (filter (\<lambda>x. x \<noteq> UINT_MAX) table) \<le> i"
    and ent: "\<And>e. e < T \<Longrightarrow> table ! e = UINT_MAX \<or> (table ! e < i \<and> remap ! (table ! e) = table ! e)"
    and rm: "\<And>j. j < i \<Longrightarrow> remap ! j \<le> j \<and> remap ! (remap ! j) = remap ! j \<and>
               PositionHasher_equal vp stride (remap ! j) j"
    by (auto simp: remap_inv_def)
  have iU: "i \<noteq> UINT_MAX" using i n by (simp add: UINT_MAX_def)
  have "length (filter (\<lambda>x. x \<noteq> UINT_MAX) table) < length table"
    using occ i nT tl by simp
  from empty_slot_exists [OF this] tl
  obtain e0 where e0: "e0 < T" "table ! e0 = UINT_MAX" by auto
  then have e0': "table ! e0 = UINT_MAX \<or> PositionHasher_equal vp stride (table ! e0) i" by simp
  from hashLookup2_Some [where eqv = "(=)" and equalf = "PositionHasher_equal vp stride"
      and hash = "PositionHasher_hash vp stride" and table = table and key = i
      and emptyv = UINT_MAX, OF T e0(1) e0']
  obtain e where e: "e < T"
    "hashLookup2 table T (PositionHasher_hash vp stride) (=) (PositionHasher_equal vp stride) i UINT_MAX = Some e"
    "table ! e = UINT_MAX \<or> PositionHasher_equal vp stride (table ! e) i"
    by blast
  show ?thesis
  proof (cases "table ! e = UINT_MAX")
    case True
    let ?t = "table[e := i]" and ?r = "remap[i := i]"
    have step: "position_remap_step vp stride T i (table, remap) = Some (?t, ?r)"
      using e(1,2) True tl by (simp add: position_remap_step_def)
    have "remap_inv vp stride T (Suc i) (?t, ?r)"
      unfolding remap_inv_def prod.case
    proof (intro conjI allI impI)
      show "length ?t = T" using tl by simp
      show "length (filter (\<lambda>x. x \<noteq> UINT_MAX) ?t) \<le> Suc i"
        using filter_update_le [of "\<lambda>x. x \<noteq> UINT_MAX" table e i] occ by simp
    next
      fix e' assume e': "e' < T"
      show "?t ! e' = UINT_MAX \<or> (?t ! e' < Suc i \<and> ?r ! (?t ! e') = ?t ! e')"
      proof (cases "e' = e")
        case True
        then show ?thesis using e' tl i len by simp
      next
        case False
        then show ?thesis using ent [OF e'] by (auto simp: nth_list_update)
      qed
    next
      fix j assume j: "j < Suc i"
      show "?r ! j \<le> j" using rm [of j] j i len by (cases "j = i") (auto simp: nth_list_update)
      show "?r ! (?r ! j) = ?r ! j"
      proof (cases "j = i")
        case True
        then show ?thesis using i len by simp
      next
        case False
        then have ji: "j < i" using j by simp
        then have "remap ! j < i" using rm [OF ji] by simp
        then show ?thesis using rm [OF ji] ji by (simp add: nth_list_update)
      qed
      show "PositionHasher_equal vp stride (?r ! j) j"
        using rm [of j] j i len by (cases "j = i") (auto simp: nth_list_update PositionHasher_equal_refl)
    qed
    with step len show ?thesis by simp
  next
    case False
    let ?r = "remap[i := table ! e]"
    have step: "position_remap_step vp stride T i (table, remap) = Some (table, ?r)"
      using e(1,2) False by (simp add: position_remap_step_def)
    from ent [OF e(1)] False have te: "table ! e < i" "remap ! (table ! e) = table ! e" by auto
    from e(3) False have eq: "PositionHasher_equal vp stride (table ! e) i" by simp
    have "remap_inv vp stride T (Suc i) (table, ?r)"
      unfolding remap_inv_def prod.case
    proof (intro conjI allI impI)
      show "length table = T" by (rule tl)
      show "length (filter (\<lambda>x. x \<noteq> UINT_MAX) table) \<le> Suc i" using occ by simp
    next
      fix e' assume e': "e' < T"
      show "table ! e' = UINT_MAX \<or> (table ! e' < Suc i \<and> ?r ! (table ! e') = table ! e')"
        using ent [OF e'] by (auto simp: nth_list_update)
    next
      fix j assume j: "j < Suc i"
      show "?r ! j \<le> j" using rm [of j] j i len te by (cases "j = i") (auto simp: nth_list_update)
      show "?r ! (?r ! j) = ?r ! j"
      proof (cases "j = i")
        case True
        then show ?thesis using i len te by (simp add: nth_list_update)
      next
        case False
        then have ji: "j < i" using j by simp
        then have "remap ! j < i" using rm [OF ji] by simp
        then show ?thesis using rm [OF ji] ji by (simp add: nth_list_update)
      qed
      show "PositionHasher_equal vp stride (?r ! j) j"
        using rm [of j] j i len eq by (cases "j = i") (auto simp: nth_list_update)
    qed
    with step len show ?thesis by simp
  qed
qed

lemma position_remap_fold:
  assumes len: "length remap0 = n" and nT: "n \<le> T" and T: "T = 2 ^ k" and n: "n < 2 ^ 32"
    and m: "m \<le> n"
  shows "\<exists>table remap. fold_option (position_remap_step vp stride T) [0..<m]
             (replicate T UINT_MAX, remap0) = Some (table, remap) \<and>
           remap_inv vp stride T m (table, remap) \<and> length remap = n"
  using m
proof (induction m)
  case 0
  then show ?case using len by (simp add: remap_inv_def)
next
  case (Suc m)
  then obtain table remap where st:
    "fold_option (position_remap_step vp stride T) [0..<m] (replicate T UINT_MAX, remap0) = Some (table, remap)"
    "remap_inv vp stride T m (table, remap)" "length remap = n"
    by auto
  from position_remap_step_inv [OF st(2) st(3) _ nT T n] Suc.prems
  obtain table' remap' where
    "position_remap_step vp stride T m (table, remap) = Some (table', remap')"
    "remap_inv vp stride T (Suc m) (table', remap')" "length remap' = n"
    by auto
  with st(1) show ?case by (simp only: fold_option_upt_Suc) simp
qed

lemma wedge_splice_inv:
  assumes inv: "wedge_inv remap n m w" and m: "m < n"
    and R: "\<And>j. j < n \<Longrightarrow> remap ! j \<le> j \<and> remap ! (remap ! j) = remap ! j"
  shows "wedge_inv remap n (Suc m) (wedge_splice remap m w)"
proof -
  from inv have len: "length w = n"
    and rng: "\<And>v. v < n \<Longrightarrow> w ! v < n \<and> remap ! (w ! v) = remap ! v"
    and inj: "\<And>u v. u < n \<Longrightarrow> v < n \<Longrightarrow> w ! u = w ! v \<Longrightarrow> u = v"
    and fixd: "\<And>v. v < n \<Longrightarrow> m \<le> v \<Longrightarrow> w ! v = v"
    and nc: "\<And>v. v < m \<Longrightarrow> remap ! v \<noteq> v \<Longrightarrow> w ! v \<noteq> v"
    unfolding wedge_inv_def by blast+
  show ?thesis
  proof (cases "remap ! m = m")
  case True
  then have "wedge_splice remap m w = w" by (simp add: wedge_splice_def)
  moreover have "wedge_inv remap n (Suc m) w"
    unfolding wedge_inv_def
  proof (intro conjI allI impI)
    show "length w = n" by (rule len)
  next
    fix v assume "v < n"
    then show "w ! v < n" "remap ! (w ! v) = remap ! v" using rng by blast+
  next
    fix u v assume "u < n" "v < n" "w ! u = w ! v"
    then show "u = v" by (rule inj)
  next
    fix v assume "v < n" "Suc m \<le> v"
    then show "w ! v = v" using fixd [of v] by simp
  next
    fix v assume v: "v < Suc m" "remap ! v \<noteq> v"
    then have "v \<noteq> m" using True by auto
    then have "v < m" using v(1) by simp
    then show "w ! v \<noteq> v" using nc v(2) by blast
  qed
  ultimately show ?thesis by simp
next
  case False
  define r where "r = remap ! m"
  have rm: "r < m" using R [OF m] False by (simp add: r_def)
  then have rn: "r < n" using m by simp
  have rr: "remap ! r = r" using R [OF m] by (simp add: r_def)
  let ?w = "(w[m := w ! r])[r := m]"
  have sp: "wedge_splice remap m w = ?w" using False by (simp add: wedge_splice_def r_def Let_def)
  have wm: "w ! m = m" using fixd [OF m] by simp
  have wrm: "w ! r \<noteq> m" using inj [OF rn m] wm rm by auto
  have nth: "?w ! v = (if v = r then m else if v = m then w ! r else w ! v)" if "v < n" for v
    using that len rm by (auto simp: nth_list_update)
  have "wedge_inv remap n (Suc m) ?w"
    unfolding wedge_inv_def
  proof (intro conjI allI impI)
    show "length ?w = n" using len by simp
  next
    fix v assume v: "v < n"
    show "?w ! v < n" using nth [OF v] rng [OF v] rng [OF rn] m by auto
    show "remap ! (?w ! v) = remap ! v"
      using nth [OF v] rng [OF v] rng [OF rn] rr by (auto simp: r_def)
  next
    fix u v assume uv: "u < n" "v < n" "?w ! u = ?w ! v"
    define sw where "sw = (\<lambda>v. if v = r then m else if v = m then r else v)"
    have sw: "?w ! x = w ! sw x" "sw x < n" if "x < n" for x
      using nth [OF that] wm that m rn by (auto simp: sw_def)
    have "w ! sw u = w ! sw v" using uv sw(1) by simp
    then have "sw u = sw v" using inj [OF sw(2) [OF uv(1)] sw(2) [OF uv(2)]] by simp
    then show "u = v" by (auto simp: sw_def split: if_splits)
  next
    fix v assume v: "v < n" "Suc m \<le> v"
    then show "?w ! v = v" using nth [OF v(1)] fixd [OF v(1)] rm by auto
  next
    fix v assume v: "v < Suc m" "remap ! v \<noteq> v"
    then have vn: "v < n" using m by simp
    show "?w ! v \<noteq> v"
    proof (cases "v = m")
      case True
      then show ?thesis using nth [OF vn] wrm rm by auto
    next
      case False
      then have "v < m" using v by simp
      then show ?thesis using nth [OF vn] nc [of v] v(2) rr False by auto
    qed
  qed
  with sp show ?thesis by simp
qed
qed

lemma wedge_fold_inv:
  assumes R: "\<And>j. j < n \<Longrightarrow> remap ! j \<le> j \<and> remap ! (remap ! j) = remap ! j"
    and m: "m \<le> n"
  shows "wedge_inv remap n m (fold (wedge_splice remap) [0..<m] [0..<n])"
  using m
proof (induction m)
  case 0
  then show ?case by (simp add: wedge_inv_def)
next
  case (Suc m)
  then have "wedge_inv remap n m (fold (wedge_splice remap) [0..<m] [0..<n])" by simp
  from wedge_splice_inv [OF this _ R] Suc.prems show ?case by simp
qed

text \<open>What the rest of the development uses of the position remap and the wedge ring.\<close>

lemma buildPositionRemap_Some:
  assumes len: "length remap0 = n" and n: "n < 2 ^ 32"
  shows "\<exists>remap wedge. buildPositionRemap remap0 vp n stride = Some (remap, wedge) \<and>
           length remap = n \<and> wedge_inv remap n n wedge \<and>
           (\<forall>j<n. remap ! j \<le> j \<and> remap ! (remap ! j) = remap ! j \<and>
                  PositionHasher_equal vp (stride div 4) (remap ! j) j)"
proof -
  from hashBuckets2_pow2 [of n] obtain k where k: "hashBuckets2 n = Some (2 ^ k)" "n \<le> 2 ^ k"
    by blast
  from position_remap_fold [OF len k(2) refl n order_refl, of vp "stride div 4"]
  obtain table remap where st:
    "fold_option (position_remap_step vp (stride div 4) (2 ^ k)) [0..<n]
       (replicate (2 ^ k) UINT_MAX, remap0) = Some (table, remap)"
    "remap_inv vp (stride div 4) (2 ^ k) n (table, remap)" "length remap = n"
    by blast
  from st(2) have R: "\<And>j. j < n \<Longrightarrow> remap ! j \<le> j \<and> remap ! (remap ! j) = remap ! j \<and>
      PositionHasher_equal vp (stride div 4) (remap ! j) j"
    by (auto simp: remap_inv_def)
  have W: "wedge_inv remap n n (fold (wedge_splice remap) [0..<n] [0..<n])"
    by (rule wedge_fold_inv) (use R in auto)
  have "buildPositionRemap remap0 vp n stride =
      Some (remap, fold (wedge_splice remap) [0..<n] [0..<n])"
    using k(1) st(1) by (simp add: buildPositionRemap_def)
  with st(3) W R show ?thesis by blast
qed

lemma idx_occ_Suc:
  "idx_occ indices (Suc t) v = (if indices ! t = v then Suc (idx_occ indices t v) else idx_occ indices t v)"
  unfolding idx_occ_def by (rule card_less_Suc_pred)

lemma idx_occ_mono: "t \<le> t' \<Longrightarrow> idx_occ indices t v \<le> idx_occ indices t' v"
  unfolding idx_occ_def by (rule card_mono) auto

lemma idx_occ_less:
  assumes "t < N" "indices ! t = v"
  shows "idx_occ indices t v < idx_occ indices N v"
proof -
  have "idx_occ indices (Suc t) v \<le> idx_occ indices N v"
    using assms(1) by (intro idx_occ_mono) simp
  then show ?thesis using assms(2) by (simp add: idx_occ_Suc)
qed

lemma idx_off_Suc: "idx_off indices N (Suc v) = idx_off indices N v + idx_occ indices N v"
  unfolding idx_off_def idx_occ_def by (rule card_less_split)

lemma idx_off_mono: "v \<le> v' \<Longrightarrow> idx_off indices N v \<le> idx_off indices N v'"
  unfolding idx_off_def by (rule card_mono) auto

lemma idx_off_block: "v < v' \<Longrightarrow> idx_off indices N v + idx_occ indices N v \<le> idx_off indices N v'"
  using idx_off_mono [of "Suc v" v' indices N] by (simp add: idx_off_Suc)

lemma idx_off_total: "idx_off indices N v + idx_occ indices N v \<le> N"
proof -
  have "idx_off indices N (Suc v) \<le> N" unfolding idx_off_def by (rule card_less_pred_le)
  then show ?thesis by (simp add: idx_off_Suc)
qed

lemma adjacency_counts_Suc:
  "adjacency_counts indices (Suc t) n =
     (adjacency_counts indices t n)[indices ! t := adjacency_counts indices t n ! (indices ! t) + 1]"
  by (simp add: adjacency_counts_def)

lemma adjacency_counts_occ:
  assumes "\<And>i. i < N \<Longrightarrow> indices ! i < n" and "t \<le> N"
  shows "length (adjacency_counts indices t n) = n \<and>
         (\<forall>v<n. adjacency_counts indices t n ! v = idx_occ indices t v)"
  using assms(2)
proof (induction t)
  case 0
  then show ?case by (simp add: idx_occ_def adjacency_counts_def)
next
  case (Suc t)
  let ?c = "adjacency_counts indices t n"
  have IH: "length ?c = n" "\<And>v. v < n \<Longrightarrow> ?c ! v = idx_occ indices t v" using Suc by auto
  have a: "indices ! t < n" using assms(1) Suc.prems by simp
  show ?case unfolding adjacency_counts_Suc
    using IH a by (auto simp: nth_list_update idx_occ_Suc)
qed

lemma adjacency_offsets_Suc:
  "adjacency_offsets cs os0 (Suc t) =
     (case adjacency_offsets cs os0 t of (os, offset) \<Rightarrow> (os[t := offset], offset + cs ! t))"
  by (simp add: adjacency_offsets_def)

lemma adjacency_offsets_off:
  assumes "length cs = n" and "\<And>v. v < n \<Longrightarrow> cs ! v = idx_occ indices N v"
    and "length os0 = n" and "t \<le> n"
  shows "\<exists>os. adjacency_offsets cs os0 t = (os, idx_off indices N t) \<and> length os = n \<and>
            (\<forall>v<t. os ! v = idx_off indices N v)"
  using assms(4)
proof (induction t)
  case 0
  then show ?case using assms(3) by (simp add: idx_off_def adjacency_offsets_def)
next
  case (Suc t)
  then obtain os where os:
    "adjacency_offsets cs os0 t = (os, idx_off indices N t)"
    "length os = n" "\<And>v. v < t \<Longrightarrow> os ! v = idx_off indices N v"
    by auto
  have t: "t < n" using Suc.prems by simp
  have step: "adjacency_offsets cs os0 (Suc t) =
      (os[t := idx_off indices N t], idx_off indices N (Suc t))"
    using os(1) assms(2) [OF t] by (simp add: idx_off_Suc adjacency_offsets_Suc)
  have "\<forall>v<Suc t. os[t := idx_off indices N t] ! v = idx_off indices N v"
    using os(2,3) t by (auto simp: nth_list_update less_Suc_eq)
  with step os(2) show ?case by simp
qed

lemma adj_slot_inv:
  assumes inv: "adj_inv indices N n t (os, ds)" and t: "t < N"
    and a: "indices ! t < n" and x: "x < n"
  shows "adj_inv indices N n (Suc t) (adj_slot indices t x (os, ds))"
proof -
  define a where "a = indices ! t"
  from inv have len: "length os = n" "length ds = N"
    and osv: "\<And>v. v < n \<Longrightarrow> os ! v = idx_off indices N v + idx_occ indices t v"
    and dsv: "\<And>v j. v < n \<Longrightarrow> j < idx_occ indices t v \<Longrightarrow> ds ! (idx_off indices N v + j) < n"
    unfolding adj_inv_def by auto
  have an: "a < n" using assms(3) by (simp add: a_def)
  have occ_lt: "idx_occ indices t a < idx_occ indices N a"
    using idx_occ_less [OF t] by (simp add: a_def)
  have pos: "os ! a = idx_off indices N a + idx_occ indices t a" using osv [OF an] .
  have posN: "os ! a < N" using pos occ_lt idx_off_total [of indices N a] by simp
  let ?os = "os[a := os ! a + 1]" and ?ds = "ds[os ! a := x]"
  have sl: "adj_slot indices t x (os, ds) = (?os, ?ds)" by (simp add: adj_slot_def a_def)
  have "adj_inv indices N n (Suc t) (?os, ?ds)"
    unfolding adj_inv_def prod.case
  proof (intro conjI allI impI)
    show "length ?os = n" "length ?ds = N" using len by simp_all
  next
    fix v assume v: "v < n"
    show "?os ! v = idx_off indices N v + idx_occ indices (Suc t) v"
      using osv [OF v] v len an by (auto simp: nth_list_update idx_occ_Suc a_def)
  next
    fix v j assume v: "v < n" and j: "j < idx_occ indices (Suc t) v"
    show "?ds ! (idx_off indices N v + j) < n"
    proof (cases "idx_off indices N v + j = os ! a")
      case True
      then show ?thesis using posN len x by simp
    next
      case False
      have "j < idx_occ indices t v"
      proof (cases "v = a")
        case True
        then show ?thesis using j False pos by (auto simp: idx_occ_Suc a_def split: if_splits)
      next
        case False
        then show ?thesis using j by (auto simp: idx_occ_Suc a_def split: if_splits)
      qed
      then show ?thesis using dsv [OF v] False by simp
    qed
  qed
  with sl show ?thesis by simp
qed

lemma adjacency_fill_Suc:
  "adjacency_fill indices (Suc k) s =
     adj_slot indices (k * 3 + 2) (indices ! (k * 3 + 0))
       (adj_slot indices (k * 3 + 1) (indices ! (k * 3 + 2))
         (adj_slot indices (k * 3 + 0) (indices ! (k * 3 + 1)) (adjacency_fill indices k s)))"
proof -
  obtain os ds where st: "adjacency_fill indices k s = (os, ds)" by (cases "adjacency_fill indices k s")
  have "adjacency_fill indices (Suc k) s = adjacency_face indices k (adjacency_fill indices k s)"
    by (simp add: adjacency_fill_def)
  then show ?thesis unfolding st by (simp add: adj_slot_def adjacency_face_def Let_def)
qed

lemma adjacency_fill_inv:
  assumes idx: "\<And>i. i < N \<Longrightarrow> indices ! i < n"
    and inv: "adj_inv indices N n 0 s" and k: "3 * k \<le> N"
  shows "adj_inv indices N n (3 * k) (adjacency_fill indices k s)"
  using k
proof (induction k)
  case 0
  then show ?case using inv by (simp add: adjacency_fill_def)
next
  case (Suc k)
  then have IH: "adj_inv indices N n (3 * k) (adjacency_fill indices k s)" by simp
  obtain os ds where st: "adjacency_fill indices k s = (os, ds)" by (cases "adjacency_fill indices k s")
  have b: "k * 3 + 0 < N" "k * 3 + 1 < N" "k * 3 + 2 < N" using Suc.prems by simp_all
  have e: "3 * k = k * 3 + 0" "Suc (k * 3 + 0) = k * 3 + 1" "Suc (k * 3 + 1) = k * 3 + 2"
    "Suc (k * 3 + 2) = 3 * Suc k" by simp_all
  obtain os1 ds1 where s1: "adj_slot indices (k * 3 + 0) (indices ! (k * 3 + 1)) (os, ds) = (os1, ds1)"
    by (cases "adj_slot indices (k * 3 + 0) (indices ! (k * 3 + 1)) (os, ds)")
  obtain os2 ds2 where s2: "adj_slot indices (k * 3 + 1) (indices ! (k * 3 + 2)) (os1, ds1) = (os2, ds2)"
    by (cases "adj_slot indices (k * 3 + 1) (indices ! (k * 3 + 2)) (os1, ds1)")
  have i1: "adj_inv indices N n (k * 3 + 1) (os1, ds1)"
    using adj_slot_inv [OF IH [unfolded st e(1)] b(1) idx [OF b(1)] idx [OF b(2)]]
    unfolding s1 e(2) .
  have i2: "adj_inv indices N n (k * 3 + 2) (os2, ds2)"
    using adj_slot_inv [OF i1 b(2) idx [OF b(2)] idx [OF b(3)]]
    unfolding s2 e(3) .
  have i3: "adj_inv indices N n (3 * Suc k) (adj_slot indices (k * 3 + 2) (indices ! (k * 3 + 0)) (os2, ds2))"
    using adj_slot_inv [OF i2 b(3) idx [OF b(3)] idx [OF b(1)]]
    unfolding e(4) .
  show ?case unfolding adjacency_fill_Suc st s1 s2 using i3 .
qed

lemma offsets_fix_fold:
  assumes "length os = n" and "t \<le> n"
  shows "length (fold (\<lambda>i os. os[i := os ! i - cs ! i]) [0..<t] os) = n \<and>
     (\<forall>v<n. fold (\<lambda>i os. os[i := os ! i - cs ! i]) [0..<t] os ! v =
        (if v < t then os ! v - cs ! v else os ! v))"
  using assms(2)
proof (induction t)
  case 0
  then show ?case using assms(1) by simp
next
  case (Suc t)
  let ?f = "fold (\<lambda>i os. os[i := os ! i - cs ! i]) [0..<t] os"
  have IH: "length ?f = n" "\<And>v. v < n \<Longrightarrow> ?f ! v = (if v < t then os ! v - cs ! v else os ! v)"
    using Suc by auto
  have step: "fold (\<lambda>i os. os[i := os ! i - cs ! i]) [0..<Suc t] os = ?f[t := ?f ! t - cs ! t]"
    by simp
  have t: "t < n" using Suc.prems by simp
  show ?case unfolding step using IH t by (auto simp: nth_list_update less_Suc_eq)
qed

lemma buildEdgeAdjacency_valid:
  assumes "valid_mesh indices N n"
  shows "adjacency_valid (buildEdgeAdjacency mem indices N n) n"
proof -
  from assms have idx: "\<And>i. i < N \<Longrightarrow> indices ! i < n" and N3: "N mod 3 = 0"
    by (auto simp: valid_mesh_def)
  let ?cs = "adjacency_counts indices N n"
  from adjacency_counts_occ [OF idx order_refl]
  have cs: "length ?cs = n" "\<And>v. v < n \<Longrightarrow> ?cs ! v = idx_occ indices N v" by auto
  have l0: "length (allocate (fresh_uint mem) n) = n" by (simp add: allocate_def)
  from adjacency_offsets_off [OF cs l0 order_refl]
  obtain os where os: "adjacency_offsets ?cs (allocate (fresh_uint mem) n) n = (os, idx_off indices N n)"
    "length os = n" "\<And>v. v < n \<Longrightarrow> os ! v = idx_off indices N v"
    by blast
  have inv0: "adj_inv indices N n 0 (os, allocate (fresh_uint mem) N)"
    using os(2,3) by (simp add: adj_inv_def allocate_def idx_occ_def)
  have k: "3 * (N div 3) = N" using N3 by presburger
  obtain os' ds where fl: "adjacency_fill indices (N div 3) (os, allocate (fresh_uint mem) N) = (os', ds)"
    by (cases "adjacency_fill indices (N div 3) (os, allocate (fresh_uint mem) N)")
  from adjacency_fill_inv [OF idx inv0, of "N div 3"] k fl
  have inv: "adj_inv indices N n N (os', ds)" by simp
  then have o': "length os' = n" "\<And>v. v < n \<Longrightarrow> os' ! v = idx_off indices N v + idx_occ indices N v"
    and d: "\<And>v j. v < n \<Longrightarrow> j < idx_occ indices N v \<Longrightarrow> ds ! (idx_off indices N v + j) < n"
    by (auto simp: adj_inv_def)
  let ?os = "fold (\<lambda>i os. os[i := os ! i - ?cs ! i]) [0..<n] os'"
  from offsets_fix_fold [OF o'(1) order_refl, of ?cs]
  have fx: "length ?os = n" "\<And>v. v < n \<Longrightarrow> ?os ! v = os' ! v - ?cs ! v" by auto
  have res: "buildEdgeAdjacency mem indices N n = \<lparr>counts = ?cs, offsets = ?os, data = ds\<rparr>"
    using os(1) fl by (simp add: buildEdgeAdjacency_def Let_def)
  show ?thesis
    unfolding adjacency_valid_def res
    using cs fx o'(2) d by simp
qed

lemma funpow_in_range:
  assumes "\<And>v. v < n \<Longrightarrow> f v < (n::nat)" and "a < n"
  shows "(f ^^ j) a < n"
proof (induction j)
  case 0
  then show ?case using assms(2) by simp
next
  case (Suc j)
  then show ?case using assms(1) [of "(f ^^ j) a"] by simp
qed

lemma funpow_cycle:
  assumes rng: "\<And>v. v < n \<Longrightarrow> f v < (n::nat)"
    and inj: "\<And>u v. u < n \<Longrightarrow> v < n \<Longrightarrow> f u = f v \<Longrightarrow> u = v"
    and a: "a < n" and eq: "(f ^^ i) a = (f ^^ (i + d)) a"
  shows "(f ^^ d) a = a"
  using eq
proof (induction i)
  case 0
  then show ?case by simp
next
  case (Suc i)
  have r: "(f ^^ j) a < n" for j by (rule funpow_in_range [OF rng a])
  from Suc.prems have "f ((f ^^ i) a) = f ((f ^^ (i + d)) a)" by simp
  then have "(f ^^ i) a = (f ^^ (i + d)) a"
    by (rule inj [OF r r])
  then show ?case by (rule Suc.IH)
qed

lemma orbit_returns:
  assumes rng: "\<And>v. v < n \<Longrightarrow> f v < (n::nat)"
    and inj: "\<And>u v. u < n \<Longrightarrow> v < n \<Longrightarrow> f u = f v \<Longrightarrow> u = v"
    and a: "a < n"
  shows "\<exists>d. 0 < d \<and> (f ^^ d) a = a"
proof -
  let ?g = "\<lambda>j. (f ^^ j) a"
  have r: "(f ^^ j) a < n" for j by (rule funpow_in_range [OF rng a])
  have "?g ` {0..n} \<subseteq> {0..<n}" using r by auto
  then have "card (?g ` {0..n}) \<le> card {0..<n}" by (intro card_mono) auto
  then have "card (?g ` {0..n}) < card {0..n}" by simp
  then have "\<not> inj_on ?g {0..n}" by (rule pigeonhole)
  then obtain i j where ij: "i \<noteq> j" "?g i = ?g j" unfolding inj_on_def by blast
  have cyc: "(f ^^ d) a = a" if "(f ^^ i) a = (f ^^ (i + d)) a" for i d
  proof (rule funpow_cycle [where f = f and n = n and a = a and i = i and d = d])
    show "\<And>v. v < n \<Longrightarrow> f v < n" by (rule rng)
    show "\<And>u v. u < n \<Longrightarrow> v < n \<Longrightarrow> f u = f v \<Longrightarrow> u = v" by (rule inj)
    show "a < n" by (rule a)
    show "(f ^^ i) a = (f ^^ (i + d)) a" by (rule that)
  qed
  show ?thesis
  proof (cases "i < j")
    case True
    then have "(f ^^ i) a = (f ^^ (i + (j - i))) a" using ij(2) by simp
    then have "(f ^^ (j - i)) a = a" by (rule cyc)
    moreover have "0 < j - i" using True by simp
    ultimately show ?thesis by blast
  next
    case False
    then have ji: "j < i" using ij(1) by simp
    then have "(f ^^ j) a = (f ^^ (j + (i - j))) a" using ij(2) by simp
    then have "(f ^^ (i - j)) a = a" by (rule cyc)
    moreover have "0 < i - j" using ji by simp
    ultimately show ?thesis by blast
  qed
qed

lemma findWedgeEdge_returns:
  assumes rng: "\<And>v. v < n \<Longrightarrow> wedge ! v < n"
    and inj: "\<And>u v. u < n \<Longrightarrow> v < n \<Longrightarrow> wedge ! u = wedge ! v \<Longrightarrow> u = v"
    and a: "a < n"
  shows "\<exists>r. findWedgeEdge adjacency wedge a b = Some r"
proof -
  let ?f = "\<lambda>v. wedge ! v"
  have "\<exists>d. 0 < d \<and> (?f ^^ d) a = a"
  proof (rule orbit_returns [where n = n])
    show "\<And>v. v < n \<Longrightarrow> wedge ! v < n" by (rule rng)
    show "\<And>u v. u < n \<Longrightarrow> v < n \<Longrightarrow> wedge ! u = wedge ! v \<Longrightarrow> u = v" by (rule inj)
    show "a < n" by (rule a)
  qed
  then obtain d0 where d0: "0 < d0" "(?f ^^ d0) a = a" by blast
  define d where "d = (LEAST d. 0 < d \<and> (?f ^^ d) a = a)"
  have d: "0 < d" "(?f ^^ d) a = a"
    unfolding d_def using LeastI [of "\<lambda>d. 0 < d \<and> (?f ^^ d) a = a" d0] d0 by auto
  have least: "(?f ^^ j) a \<noteq> a" if "0 < j" "j < d" for j
    using not_less_Least [of j "\<lambda>d. 0 < d \<and> (?f ^^ d) a = a"] that by (auto simp: d_def)
  have "\<exists>r. findWedgeEdge_loop adjacency wedge a b ((?f ^^ j) a) = Some r" if "j < d" for j
    using that
  proof (induction "d - j" arbitrary: j)
    case 0
    then show ?case by simp
  next
    case (Suc k)
    show ?case
    proof (cases "hasEdge adjacency ((?f ^^ j) a) b")
      case True
      then show ?thesis by (subst findWedgeEdge_loop.simps) simp
    next
      case False
      show ?thesis
      proof (cases "Suc j = d")
        case True
        then have "wedge ! ((?f ^^ j) a) = a" using d(2) by auto
        with False show ?thesis by (subst findWedgeEdge_loop.simps) simp
      next
        case ne: False
        then have sj: "Suc j < d" using Suc.prems by simp
        have "k = d - Suc j" using Suc.hyps(2) by simp
        from Suc.hyps(1) [OF this sj] obtain r where
          r: "findWedgeEdge_loop adjacency wedge a b ((?f ^^ Suc j) a) = Some r" by blast
        have "wedge ! ((?f ^^ j) a) \<noteq> a" using least [of "Suc j"] sj by simp
        with False r show ?thesis by (subst findWedgeEdge_loop.simps) (simp add: Let_def)
      qed
    qed
  qed
  from this [of 0] d(1) show ?thesis by (simp add: findWedgeEdge_def)
qed

lemma countOpenEdges_last:
  assumes val: "adjacency_valid adjacency n" and v: "vertex < n"
  shows "fst (countOpenEdges adjacency vertex l0) = 0 \<or> snd (countOpenEdges adjacency vertex l0) < n"
proof -
  let ?step = "count_open_edge adjacency vertex"
  have "fst (fold ?step [0..<t] (0, l0)) = 0 \<or> snd (fold ?step [0..<t] (0, l0)) < n"
    if "t \<le> counts adjacency ! vertex" for t
    using that
  proof (induction t)
    case 0
    then show ?case by simp
  next
    case (Suc t)
    obtain c l where st: "fold ?step [0..<t] (0, l0) = (c, l)" by (cases "fold ?step [0..<t] (0, l0)")
    have IH: "c = 0 \<or> l < n" using Suc st by simp
    have d: "data adjacency ! (offsets adjacency ! vertex + t) < n"
      using val v Suc.prems by (simp add: adjacency_valid_def)
    have "fold ?step [0..<Suc t] (0, l0) = ?step t (c, l)" using st by simp
    moreover have "fst (?step t (c, l)) = 0 \<or> snd (?step t (c, l)) < n"
      using IH d by (auto simp: Let_def count_open_edge_def)
    ultimately show ?case by simp
  qed
  from this [OF order_refl] show ?thesis by (simp add: countOpenEdges_def)
qed

lemma classify_vertex_step:
  assumes val: "adjacency_valid adjacency n"
    and W: "wedge_inv remap n n wedge"
    and i: "i < n" and len: "length result = n" "length loop = n"
    and K: "\<And>v. v < i \<Longrightarrow> result ! v = Kind_Seam \<Longrightarrow> wedge ! v \<noteq> v"
    and R: "remap ! i \<le> i"
  shows "\<exists>result' loop'. classify_vertex adjacency remap wedge i (result, loop) = Some (result', loop') \<and>
           length result' = n \<and> length loop' = n \<and>
           (\<forall>v<Suc i. result' ! v = Kind_Seam \<longrightarrow> wedge ! v \<noteq> v)"
proof -
  from W have rng: "\<And>v. v < n \<Longrightarrow> wedge ! v < n"
    and inj: "\<And>u v. u < n \<Longrightarrow> v < n \<Longrightarrow> wedge ! u = wedge ! v \<Longrightarrow> u = v"
    and nc: "\<And>v. v < n \<Longrightarrow> remap ! v \<noteq> v \<Longrightarrow> wedge ! v \<noteq> v"
    unfolding wedge_inv_def by blast+
  have keep: "\<forall>v<Suc i. (result[i := k]) ! v = Kind_Seam \<longrightarrow> wedge ! v \<noteq> v"
    if "k = Kind_Seam \<Longrightarrow> wedge ! i \<noteq> i" for k
    using K that len i by (auto simp: nth_list_update less_Suc_eq)
  have fin: "\<exists>result' loop'. Some (result[i := k], lp) = Some (result', loop') \<and>
           length result' = n \<and> length loop' = n \<and>
           (\<forall>v<Suc i. result' ! v = Kind_Seam \<longrightarrow> wedge ! v \<noteq> v)"
    if "k = Kind_Seam \<Longrightarrow> wedge ! i \<noteq> i" "length lp = n" for k lp
    using keep [OF that(1)] that(2) len by simp
  show ?thesis
  proof (cases "remap ! i = i")
    case False
    have "classify_vertex adjacency remap wedge i (result, loop) =
        Some (result[i := result ! (remap ! i)], loop)"
      using False by (simp add: classify_vertex_def)
    moreover have "wedge ! i \<noteq> i" using nc [OF i False] .
    ultimately show ?thesis using fin [of "result ! (remap ! i)" loop] len by simp
  next
    case canon: True
    show ?thesis
    proof (cases "wedge ! i = i")
      case True
      obtain edges v where co: "countOpenEdges adjacency i 0 = (edges, v)"
        by (cases "countOpenEdges adjacency i 0")
      have "classify_vertex adjacency remap wedge i (result, loop) =
          (if edges = 0 then Some (result[i := Kind_Manifold], loop)
           else if edges = 1 then Some (result[i := Kind_Border], loop[i := v])
           else Some (result[i := Kind_Locked], loop))"
        using canon True co by (simp add: classify_vertex_def)
      then show ?thesis
        using fin [of Kind_Manifold loop] fin [of Kind_Border "loop[i := v]"]
          fin [of Kind_Locked loop] len
        by (auto split: if_splits)
    next
      case notself: False
      show ?thesis
      proof (cases "wedge ! (wedge ! i) = i")
        case False
        have "classify_vertex adjacency remap wedge i (result, loop) =
            Some (result[i := Kind_Locked], loop)"
          using canon notself False by (simp add: classify_vertex_def)
        then show ?thesis using fin [of Kind_Locked loop] len by simp
      next
        case pair: True
        obtain a_count a where ca: "countOpenEdges adjacency i 0 = (a_count, a)"
          by (cases "countOpenEdges adjacency i 0")
        obtain b_count b where cb: "countOpenEdges adjacency (wedge ! i) 0 = (b_count, b)"
          by (cases "countOpenEdges adjacency (wedge ! i) 0")
        show ?thesis
        proof (cases "a_count = 1 \<and> b_count = 1")
          case False
          have "classify_vertex adjacency remap wedge i (result, loop) =
              Some (result[i := Kind_Locked], loop)"
            using canon notself pair ca cb False by (auto simp: classify_vertex_def)
          then show ?thesis using fin [of Kind_Locked loop] len by simp
        next
          case True
          have an: "a < n" using countOpenEdges_last [OF val i, of 0] ca True by simp
          have bn: "b < n" using countOpenEdges_last [OF val rng [OF i], of 0] cb True by simp
          obtain ao where ao: "findWedgeEdge adjacency wedge a (wedge ! i) = Some ao"
            using findWedgeEdge_returns [of n wedge a adjacency "wedge ! i"] rng inj an by blast
          obtain bo where bo: "findWedgeEdge adjacency wedge b i = Some bo"
            using findWedgeEdge_returns [of n wedge b adjacency i] rng inj bn by blast
          have "classify_vertex adjacency remap wedge i (result, loop) =
              (if ao \<noteq> UINT_MAX \<and> bo \<noteq> UINT_MAX then
                 Some (result[i := Kind_Seam], (loop[i := a])[wedge ! i := b])
               else Some (result[i := Kind_Locked], loop))"
            using canon notself pair ca cb True ao bo by (simp add: classify_vertex_def)
          then show ?thesis
            using fin [of Kind_Seam "(loop[i := a])[wedge ! i := b]"] fin [of Kind_Locked loop]
              len notself
            by (auto split: if_splits)
        qed
      qed
    qed
  qed
qed

lemma classifyVertices_Some:
  assumes val: "adjacency_valid adjacency n"
    and W: "wedge_inv remap n n wedge"
    and R: "\<And>j. j < n \<Longrightarrow> remap ! j \<le> j"
    and len: "length result0 = n"
  shows "\<exists>kind loop. classifyVertices result0 n adjacency remap wedge = Some (kind, loop) \<and>
           length kind = n \<and> length loop = n \<and>
           (\<forall>v<n. kind ! v = Kind_Seam \<longrightarrow> wedge ! v \<noteq> v)"
proof -
  have "\<exists>kind loop. fold_option (classify_vertex adjacency remap wedge) [0..<m]
            (result0, replicate n UINT_MAX) = Some (kind, loop) \<and>
           length kind = n \<and> length loop = n \<and>
           (\<forall>v<m. kind ! v = Kind_Seam \<longrightarrow> wedge ! v \<noteq> v)" if "m \<le> n" for m
    using that
  proof (induction m)
    case 0
    then show ?case using len by simp
  next
    case (Suc m)
    then obtain kind loop where st:
      "fold_option (classify_vertex adjacency remap wedge) [0..<m] (result0, replicate n UINT_MAX) =
         Some (kind, loop)"
      "length kind = n" "length loop = n"
      "\<And>v. v < m \<Longrightarrow> kind ! v = Kind_Seam \<Longrightarrow> wedge ! v \<noteq> v"
      by auto
    have m: "m < n" using Suc.prems by simp
    from classify_vertex_step [OF val W m st(2,3) st(4) R [OF m]]
    obtain kind' loop' where
      "classify_vertex adjacency remap wedge m (kind, loop) = Some (kind', loop')"
      "length kind' = n" "length loop' = n"
      "\<forall>v<Suc m. kind' ! v = Kind_Seam \<longrightarrow> wedge ! v \<noteq> v"
      by blast
    with st(1) show ?case by (simp only: fold_option_upt_Suc) simp
  qed
  from this [OF order_refl] show ?thesis by (simp add: classifyVertices_def)
qed


subsection \<open>The set-up phase of the exact simplifier returns\<close>

lemma meshopt_simplify_setup:
  assumes val: "valid_mesh indices N n"
  shows "\<exists>remap wedge kind loop.
      buildPositionRemap (allocate (fresh_uint mem) n) vpd n stride = Some (remap, wedge) \<and>
      classifyVertices (allocate (fresh_kind mem) n) n (buildEdgeAdjacency mem indices N n) remap wedge =
        Some (kind, loop) \<and>
      length remap = n \<and> wedge_inv remap n n wedge \<and> (\<forall>j<n. remap ! j \<le> j) \<and>
      length kind = n \<and> length loop = n \<and> (\<forall>v<n. kind ! v = Kind_Seam \<longrightarrow> wedge ! v \<noteq> v)"
proof -
  from val have n: "n < 2 ^ 32" by (simp add: valid_mesh_def)
  have la: "length (allocate f n) = n" for f :: "nat \<Rightarrow> 'a" by (simp add: allocate_def)
  from buildPositionRemap_Some [OF la n, of "fresh_uint mem" vpd stride]
  obtain remap wedge where r:
    "buildPositionRemap (allocate (fresh_uint mem) n) vpd n stride = Some (remap, wedge)"
    "length remap = n" "wedge_inv remap n n wedge" "\<And>j. j < n \<Longrightarrow> remap ! j \<le> j"
    by blast
  from classifyVertices_Some [OF buildEdgeAdjacency_valid [OF val, of mem] r(3) r(4) la [of "fresh_kind mem"]]
  obtain kind loop where c:
    "classifyVertices (allocate (fresh_kind mem) n) n (buildEdgeAdjacency mem indices N n) remap wedge =
        Some (kind, loop)"
    "length kind = n" "length loop = n" "\<forall>v<n. kind ! v = Kind_Seam \<longrightarrow> wedge ! v \<noteq> v"
    by blast
  from r c show ?thesis by blast
qed

lemma valid_mesh_example: "valid_mesh [0, 0, 1] 3 2"
proof -
  have "[0, 0, 1] ! i < (2::nat)" if "i < 3" for i
  proof -
    from that have "i = 0 \<or> i = 1 \<or> i = 2" by arith
    then show ?thesis by auto
  qed
  then show ?thesis by (simp add: valid_mesh_def)
qed

lemma meshopt_simplify_no_pass:
  assumes val: "valid_mesh indices N n"
  shows "meshopt_simplify mem destination indices N vpd n stride N target_error =
           Some (N, take N indices @ drop N destination)"
proof -
  from meshopt_simplify_setup [OF val, of mem vpd stride]
  obtain remap wedge kind loop where s:
    "buildPositionRemap (allocate (fresh_uint mem) n) vpd n stride = Some (remap, wedge)"
    "classifyVertices (allocate (fresh_kind mem) n) n (buildEdgeAdjacency mem indices N n) remap wedge =
        Some (kind, loop)"
    by blast
  have l: "simplify_loop n remap wedge kind vp N target_error (r, N, rest) = Some (r, N, rest)"
    for vp r rest
    by (subst simplify_loop.simps) simp
  show ?thesis
    by (simp add: meshopt_simplify_def s l Let_def)
qed

text \<open>
  C4: for every valid input, \<^verbatim>\<open>meshopt_simplify\<close> called with \<^verbatim>\<open>target_index_count\<close> equal to
  \<^verbatim>\<open>index_count\<close> returns \<^verbatim>\<open>index_count\<close>, and the first \<^verbatim>\<open>index_count\<close> entries of the
  destination are the input indices, copied as they are (the rest of the destination is
  not written); the outer loop does not run. Nothing is assumed about the triangles: the
  input may hold triangles with repeated corners.
\<close>

theorem meshopt_simplify_target_reached:
  assumes "valid_mesh indices index_count vertex_count"
  shows "meshopt_simplify mem destination indices index_count vertex_positions_data vertex_count
           vertex_positions_stride index_count target_error =
         Some (index_count, take index_count indices @ drop index_count destination)"
  using assms by (rule meshopt_simplify_no_pass)

theorem meshopt_simplify_target_reached_witness:
  "valid_mesh [0, 0, 1] 3 2 \<and>
   meshopt_simplify \<lparr>fresh_uint = (\<lambda>i. 0), fresh_kind = (\<lambda>i. Kind_Manifold), fresh_float = (\<lambda>i. 0)\<rparr>
     [7, 7, 7] [0, 0, 1] 3 [0, 0, 0, 0x3F800000, 0, 0] 2 12 3 0 = Some (3, [0, 0, 1])"
  using meshopt_simplify_target_reached [of "[0, 0, 1]" 3 2
      "\<lparr>fresh_uint = (\<lambda>i. 0), fresh_kind = (\<lambda>i. Kind_Manifold), fresh_float = (\<lambda>i. 0)\<rparr>"
      "[7, 7, 7]" "[0, 0, 0, 0x3F800000, 0, 0]" 12 0]
    valid_mesh_example
  by simp


subsection \<open>Compaction of the index buffer\<close>

lemma triangle_starts_mult: "triangle_starts (3 * k) = map (\<lambda>k. 3 * k) [0..<k]"
proof -
  have "(3 * k + 2) div 3 = k" by simp
  then show ?thesis by (simp add: triangle_starts_def)
qed

lemma fold_triangle_starts_Suc:
  "fold f (triangle_starts (3 * Suc k)) s = f (3 * k) (fold f (triangle_starts (3 * k)) s)"
  by (simp only: triangle_starts_mult) simp

lemma remap_triangle_inv:
  assumes inv: "compact_inv cr buf0 k (buf, w)" and k: "3 * k + 2 < length buf0"
  shows "compact_inv cr buf0 (Suc k) (remap_triangle cr (3 * k) (buf, w))"
proof -
  from inv have len: "length buf = length buf0" and w: "w \<le> 3 * k" "3 dvd w"
    and tail: "\<And>p. 3 * k \<le> p \<Longrightarrow> buf ! p = buf0 ! p"
    and src: "\<And>p. p < w \<Longrightarrow> \<exists>q<3 * k. buf ! p = cr ! (buf0 ! q)"
    and dc: "distinct_corners buf w"
    and dg: "(\<exists>j<k. degenerate cr buf0 j) \<Longrightarrow> w < 3 * k"
    unfolding compact_inv_def by auto
  define w0 where "w0 = cr ! (buf0 ! (3 * k))"
  define w1 where "w1 = cr ! (buf0 ! (3 * k + 1))"
  define w2 where "w2 = cr ! (buf0 ! (3 * k + 2))"
  have rd: "buf ! (3 * k) = buf0 ! (3 * k)" "buf ! Suc (3 * k) = buf0 ! Suc (3 * k)"
    "buf ! Suc (Suc (3 * k)) = buf0 ! Suc (Suc (3 * k))" using tail by simp_all
  have step: "remap_triangle cr (3 * k) (buf, w) =
      (if w0 \<noteq> w1 \<and> w0 \<noteq> w2 \<and> w1 \<noteq> w2 then
         (((buf[w + 0 := w0])[w + 1 := w1])[w + 2 := w2], w + 3)
       else (buf, w))"
    by (simp add: remap_triangle_def rd w0_def w1_def w2_def Let_def)
  show ?thesis
  proof (cases "w0 \<noteq> w1 \<and> w0 \<noteq> w2 \<and> w1 \<noteq> w2")
    case False
    then have st: "remap_triangle cr (3 * k) (buf, w) = (buf, w)"
      unfolding step by simp
    have deg: "degenerate cr buf0 k" using False by (auto simp: degenerate_def w0_def w1_def w2_def)
    have "compact_inv cr buf0 (Suc k) (buf, w)"
      unfolding compact_inv_def prod.case
    proof (intro conjI allI impI)
      show "length buf = length buf0" by (rule len)
      show "w \<le> 3 * Suc k" using w by simp
      show "3 dvd w" using w by simp
      show "distinct_corners buf w" by (rule dc)
      show "w < 3 * Suc k" using w by simp
    next
      fix p assume "3 * Suc k \<le> p"
      then show "buf ! p = buf0 ! p" using tail [of p] by simp
    next
      fix p assume "p < w"
      from src [OF this] obtain q where "q < 3 * k" "buf ! p = cr ! (buf0 ! q)" by blast
      then show "\<exists>q<3 * Suc k. buf ! p = cr ! (buf0 ! q)" by (intro exI [of _ q]) simp
    qed
    with st show ?thesis by simp
  next
    case True
    let ?b = "((buf[w + 0 := w0])[w + 1 := w1])[w + 2 := w2]"
    have st: "remap_triangle cr (3 * k) (buf, w) = (?b, w + 3)"
      unfolding step using True by simp
    have wl: "w + 2 < length buf" using w k len by simp
    have nth: "?b ! p = (if p = w + 2 then w2 else if p = w + 1 then w1 else if p = w then w0 else buf ! p)"
      for p using wl by (auto simp: nth_list_update)
    have ndeg: "\<not> degenerate cr buf0 k" using True by (auto simp: degenerate_def w0_def w1_def w2_def)
    have "compact_inv cr buf0 (Suc k) (?b, w + 3)"
      unfolding compact_inv_def prod.case
    proof (intro conjI allI impI)
      show "length ?b = length buf0" using len by simp
      show "w + 3 \<le> 3 * Suc k" using w by simp
      show "3 dvd w + 3" using w by simp
    next
      fix p assume "3 * Suc k \<le> p"
      then show "?b ! p = buf0 ! p" using tail [of p] w nth [of p] by simp
    next
      fix p assume p: "p < w + 3"
      consider "p < w" | "p = w" | "p = w + 1" | "p = w + 2" using p by linarith
      then show "\<exists>q<3 * Suc k. ?b ! p = cr ! (buf0 ! q)"
      proof cases
        case 1
        from src [OF 1] obtain q where "q < 3 * k" "buf ! p = cr ! (buf0 ! q)" by blast
        then show ?thesis using 1 nth [of p] by (intro exI [of _ q]) simp
      next
        case 2
        then show ?thesis using nth [of p] by (intro exI [of _ "3 * k"]) (simp add: w0_def)
      next
        case 3
        then show ?thesis using nth [of p] by (intro exI [of _ "3 * k + 1"]) (simp add: w1_def)
      next
        case 4
        then show ?thesis using nth [of p] by (intro exI [of _ "3 * k + 2"]) (simp add: w2_def)
      qed
    next
      show "distinct_corners ?b (w + 3)"
        unfolding distinct_corners_def
      proof (intro allI impI)
        fix t assume t: "3 * t + 2 < w + 3"
        obtain m where m: "w = 3 * m" using w(2) by (auto elim: dvdE)
        show "?b ! (3 * t) \<noteq> ?b ! (3 * t + 1) \<and> ?b ! (3 * t) \<noteq> ?b ! (3 * t + 2) \<and>
              ?b ! (3 * t + 1) \<noteq> ?b ! (3 * t + 2)"
        proof (cases "t = m")
          case True
          then show ?thesis using \<open>w0 \<noteq> w1 \<and> w0 \<noteq> w2 \<and> w1 \<noteq> w2\<close> m
              nth [of "3 * m"] nth [of "3 * m + 1"] nth [of "3 * m + 2"]
            by simp
        next
          case False
          then have tm: "t < m" using t m by simp
          then have "3 * t + 2 < w" using m by simp
          moreover have "3 * t + 2 < w" "3 * t + 1 < w" "3 * t < w" using tm m by simp_all
          ultimately show ?thesis using dc
              nth [of "3 * t"] nth [of "3 * t + 1"] nth [of "3 * t + 2"]
            unfolding distinct_corners_def by simp
        qed
      qed
    next
      assume "\<exists>j<Suc k. degenerate cr buf0 j"
      then have "\<exists>j<k. degenerate cr buf0 j" using ndeg by (auto simp: less_Suc_eq)
      from dg [OF this] show "w + 3 < 3 * Suc k" by simp
    qed
    with st show ?thesis by simp
  qed
qed

lemma remapIndexBuffer_inv:
  assumes "3 * k \<le> length buf0"
  shows "compact_inv cr buf0 k (remapIndexBuffer buf0 (3 * k) cr)"
  using assms
proof (induction k)
  case 0
  then show ?case
    by (simp add: remapIndexBuffer_def triangle_starts_def compact_inv_def distinct_corners_def)
next
  case (Suc k)
  then have IH: "compact_inv cr buf0 k (remapIndexBuffer buf0 (3 * k) cr)" by simp
  obtain buf w where st: "remapIndexBuffer buf0 (3 * k) cr = (buf, w)"
    by (cases "remapIndexBuffer buf0 (3 * k) cr")
  have k: "3 * k + 2 < length buf0" using Suc.prems by simp
  have "remapIndexBuffer buf0 (3 * Suc k) cr = remap_triangle cr (3 * k) (buf, w)"
    using st by (simp only: remapIndexBuffer_def fold_triangle_starts_Suc)
  then show ?case using remap_triangle_inv [OF IH [unfolded st] k] by simp
qed


subsection \<open>Candidate edges and the collapse loop\<close>

lemma next3_cases: "e < 3 \<Longrightarrow> (e = 0 \<and> next3 e = 1) \<or> (e = 1 \<and> next3 e = 2) \<or> (e = 2 \<and> next3 e = 0)"
proof -
  assume "e < 3"
  then have "e = 0 \<or> e = 1 \<or> e = 2" by arith
  then show ?thesis by (auto simp: next3_def)
qed

lemma buffer_edge_sym: "buffer_edge buf count a b \<Longrightarrow> buffer_edge buf count b a"
  unfolding buffer_edge_def by blast

lemma buffer_edge_degenerate:
  assumes "buffer_edge buf (3 * k) a b" and "cr ! a = cr ! b"
  shows "\<exists>j<k. degenerate cr buf j"
proof -
  from assms(1) obtain j e where j: "3 * j + 2 < 3 * k" and e: "e < 3"
    and ab: "(a = buf ! (3 * j + e) \<and> b = buf ! (3 * j + next3 e)) \<or>
             (b = buf ! (3 * j + e) \<and> a = buf ! (3 * j + next3 e))"
    unfolding buffer_edge_def by blast
  from ab assms(2) have eq: "cr ! (buf ! (3 * j + e)) = cr ! (buf ! (3 * j + next3 e))" by auto
  have "degenerate cr buf j"
    using next3_cases [OF e] eq by (auto simp: degenerate_def)
  moreover have "j < k" using j by simp
  ultimately show ?thesis by blast
qed

lemma pick_edge_ok:
  assumes ok: "pick_ok buf count remap cs" and j: "3 * j + 2 < count" and e: "e < 3"
  shows "pick_ok buf count remap (pick_edge buf remap kind loop (3 * j) e cs) \<and>
         length (pick_edge buf remap kind loop (3 * j) e cs) \<le> length cs + 1"
proof -
  let ?i0 = "buf ! (3 * j + e)" and ?i1 = "buf ! (3 * j + next3 e)"
  have be: "buffer_edge buf count ?i0 ?i1" "buffer_edge buf count ?i1 ?i0"
    unfolding buffer_edge_def using j e by blast+
  have new: "pick_ok buf count remap (cs @ [\<lparr>v0 = a, v1 = b, errorui = x\<rparr>])"
    if "(a = ?i0 \<and> b = ?i1) \<or> (a = ?i1 \<and> b = ?i0)" "remap ! ?i0 \<noteq> remap ! ?i1" for a b x
    using ok that be by (auto simp: pick_ok_def)
  show ?thesis
    using ok new by (auto simp: pick_edge_def Let_def)
qed

lemma pick_triangle_ok:
  assumes ok: "pick_ok buf count remap cs" and j: "3 * j + 2 < count"
  shows "pick_ok buf count remap (fold (pick_edge buf remap kind loop (3 * j)) [0..<3] cs) \<and>
         length (fold (pick_edge buf remap kind loop (3 * j)) [0..<3] cs) \<le> length cs + 3"
proof -
  have u: "[0..<3] = [0, 1, 2]" by (simp add: upt_rec)
  let ?c1 = "pick_edge buf remap kind loop (3 * j) 0 cs"
  let ?c2 = "pick_edge buf remap kind loop (3 * j) 1 ?c1"
  let ?c3 = "pick_edge buf remap kind loop (3 * j) 2 ?c2"
  from pick_edge_ok [OF ok j, of 0 kind loop]
  have 1: "pick_ok buf count remap ?c1" "length ?c1 \<le> length cs + 1" by simp_all
  from pick_edge_ok [OF 1(1) j, of 1 kind loop]
  have 2: "pick_ok buf count remap ?c2" "length ?c2 \<le> length ?c1 + 1" by simp_all
  from pick_edge_ok [OF 2(1) j, of 2 kind loop]
  have 3: "pick_ok buf count remap ?c3" "length ?c3 \<le> length ?c2 + 1" by simp_all
  show ?thesis unfolding u using 1 2 3 by simp
qed

lemma pickEdgeCollapses_ok:
  "pick_ok buf (3 * k) remap (pickEdgeCollapses buf (3 * k) remap kind loop) \<and>
   length (pickEdgeCollapses buf (3 * k) remap kind loop) \<le> 3 * k"
proof -
  have "pick_ok buf (3 * k) remap (pickEdgeCollapses buf (3 * m) remap kind loop) \<and>
        length (pickEdgeCollapses buf (3 * m) remap kind loop) \<le> 3 * m" if "m \<le> k" for m
    using that
  proof (induction m)
    case 0
    then show ?case by (simp add: pickEdgeCollapses_def triangle_starts_def pick_ok_def)
  next
    case (Suc m)
    let ?cs = "pickEdgeCollapses buf (3 * m) remap kind loop"
    from Suc have IH: "pick_ok buf (3 * k) remap ?cs" "length ?cs \<le> 3 * m" by simp_all
    have st: "pickEdgeCollapses buf (3 * Suc m) remap kind loop =
        fold (pick_edge buf remap kind loop (3 * m)) [0..<3] ?cs"
      by (simp only: pickEdgeCollapses_def fold_triangle_starts_Suc)
    have m: "3 * m + 2 < 3 * k" using Suc.prems by simp
    from pick_triangle_ok [OF IH(1) m, of kind loop] IH(2)
    show ?case unfolding st by simp
  qed
  then show ?thesis by simp
qed

lemma apply_collapse_inv:
  assumes inv: "collapse_inv n m remap collapses order st"
    and c: "c = collapses ! (order ! i)" and im: "i < m"
    and v: "v0 c < n" "v1 c < n" "remap ! v0 c \<noteq> remap ! v1 c"
    and R: "\<And>j. j < n \<Longrightarrow> remap ! j \<le> j"
    and W: "wedge_inv remap n n wedge"
    and S: "\<And>v. v < n \<Longrightarrow> kind ! v = Kind_Seam \<Longrightarrow> wedge ! v \<noteq> v"
    and ul: "\<not> st_locked st ! (remap ! v0 c)" "\<not> st_locked st ! (remap ! v1 c)"
  shows "collapse_inv n m remap collapses order (apply_collapse remap wedge kind i c st)"
proof -
  let ?i0 = "v0 c" and ?i1 = "v1 c"
  let ?s0 = "wedge ! ?i0" and ?s1 = "wedge ! ?i1"
  let ?cr = "st_remap st" and ?lk = "st_locked st"
  let ?st = "apply_collapse remap wedge kind i c st"
  from inv have len: "length ?cr = n" "length ?lk = n"
    and cnt: "st_edge_collapses st = length (st_applied st)"
    and rng: "\<And>v. v < n \<Longrightarrow> ?cr ! v < n"
    and mv: "\<And>v. v < n \<Longrightarrow> ?cr ! v \<noteq> v \<Longrightarrow> ?lk ! (remap ! v)"
    and ap: "\<And>j. j \<in> set (st_applied st) \<Longrightarrow> j < m \<and>
        ?cr ! v0 (collapses ! (order ! j)) = v1 (collapses ! (order ! j)) \<and>
        ?cr ! v1 (collapses ! (order ! j)) = v1 (collapses ! (order ! j)) \<and>
        ?lk ! (remap ! v0 (collapses ! (order ! j))) \<and>
        ?lk ! (remap ! v1 (collapses ! (order ! j)))"
    unfolding collapse_inv_def by blast+
  from W have wl: "\<And>v. v < n \<Longrightarrow> wedge ! v < n"
    and wr: "\<And>v. v < n \<Longrightarrow> remap ! (wedge ! v) = remap ! v"
    unfolding wedge_inv_def by blast+
  have r0: "remap ! ?i0 < n" and r1: "remap ! ?i1 < n"
    using R [OF v(1)] R [OF v(2)] v by simp_all
  have s0: "?s0 < n" and s1: "?s1 < n" using wl v by simp_all
  have rs0: "remap ! ?s0 = remap ! ?i0" and rs1: "remap ! ?s1 = remap ! ?i1" using wr v by simp_all
  have i1fix: "?cr ! ?i1 = ?i1" using mv [OF v(2)] ul(2) by blast
  have s1fix: "?cr ! ?s1 = ?s1" using mv [OF s1] ul(2) rs1 by auto
  have ne01: "?i0 \<noteq> ?i1" using v(3) by auto
  have nes0i1: "?s0 \<noteq> ?i1" using v(3) rs0 by auto
  define seam where "seam \<longleftrightarrow> kind ! ?i0 = Kind_Seam"
  define cr' where "cr' = (if seam then (?cr[?i0 := ?i1])[?s0 := ?s1] else ?cr[?i0 := ?i1])"
  define lk' where "lk' = (?lk[remap ! ?i0 := True])[remap ! ?i1 := True]"
  have st_cr: "st_remap ?st = cr'" and st_lk: "st_locked ?st = lk'"
    and st_ap: "st_applied ?st = i # st_applied st"
    and st_cnt: "st_edge_collapses ?st = st_edge_collapses st + 1"
    by (simp_all add: apply_collapse_def Let_def cr'_def lk'_def seam_def)
  have nes0i0: "seam \<Longrightarrow> ?s0 \<noteq> ?i0" using S [OF v(1)] by (simp add: seam_def)
  have cr'_nth: "cr' ! x = (if seam \<and> x = ?s0 then ?s1 else if x = ?i0 then ?i1 else ?cr ! x)"
    if "x < n" for x
    using that len s0 v(1) by (auto simp: cr'_def nth_list_update)
  have lk'_nth: "lk' ! x = (x = remap ! ?i0 \<or> x = remap ! ?i1 \<or> ?lk ! x)" if "x < n" for x
  proof -
    have "lk' ! x = (if x = remap ! ?i1 then True else if x = remap ! ?i0 then True else ?lk ! x)"
      using that len by (simp add: lk'_def nth_list_update)
    then show ?thesis by auto
  qed
  have lk'_mono: "?lk ! x \<Longrightarrow> x < n \<Longrightarrow> lk' ! x" for x using lk'_nth by simp
  show ?thesis
    unfolding collapse_inv_def st_cr st_lk st_ap st_cnt
  proof (intro conjI allI impI ballI)
    show "length cr' = n" using len by (simp add: cr'_def)
    show "length lk' = n" using len by (simp add: lk'_def)
    show "st_edge_collapses st + 1 = length (i # st_applied st)" using cnt by simp
  next
    fix x assume x: "x < n"
    show "cr' ! x < n" using cr'_nth [OF x] rng [OF x] s1 v(2) by auto
  next
    fix x assume x: "x < n" and m: "cr' ! x \<noteq> x"
    have rx: "remap ! x < n" using R [OF x] x by simp
    show "lk' ! (remap ! x)"
    proof (cases "x = ?i0 \<or> x = ?s0")
      case True
      then have "remap ! x = remap ! ?i0" using rs0 by auto
      then show ?thesis using lk'_nth [OF rx] by simp
    next
      case False
      then have "cr' ! x = ?cr ! x" using cr'_nth [OF x] by auto
      with m have "?lk ! (remap ! x)" using mv [OF x] by simp
      then show ?thesis using lk'_mono rx by blast
    qed
  next
    fix j assume j: "j \<in> set (i # st_applied st)"
    let ?d = "collapses ! (order ! j)"
    show "j < m" "cr' ! v0 ?d = v1 ?d" "cr' ! v1 ?d = v1 ?d" "lk' ! (remap ! v0 ?d)" "lk' ! (remap ! v1 ?d)"
    proof -
      have "j < m \<and> cr' ! v0 ?d = v1 ?d \<and> cr' ! v1 ?d = v1 ?d \<and> lk' ! (remap ! v0 ?d) \<and> lk' ! (remap ! v1 ?d)"
      proof (cases "j \<in> set (st_applied st)")
        case True
        from ap [OF True] have old: "?cr ! v0 ?d = v1 ?d" "?cr ! v1 ?d = v1 ?d"
          "?lk ! (remap ! v0 ?d)" "?lk ! (remap ! v1 ?d)" "j < m" by blast+
        have a: "v0 ?d \<noteq> ?i0" "v0 ?d \<noteq> ?s0" "v1 ?d \<noteq> ?i0" "v1 ?d \<noteq> ?s0"
          using old(3,4) ul(1) rs0 by auto
        have nth': "cr' ! x = ?cr ! x" if "x \<noteq> ?i0" "x \<noteq> ?s0" for x
          using that by (auto simp: cr'_def)
        have lk'': "lk' ! x" if "?lk ! x" for x
        proof (cases "x < n")
          case True then show ?thesis using lk'_mono that by blast
        next
          case False
          then have "lk' ! x = ?lk ! x" using r0 r1 by (auto simp: lk'_def)
          then show ?thesis using that by simp
        qed
        show ?thesis using old a nth' lk'' by simp
      next
        case False
        with j have ji: "j = i" by simp
        then have d: "?d = c" using c by simp
        have "cr' ! ?i0 = ?i1" using cr'_nth [OF v(1)] nes0i0 by auto
        moreover have "cr' ! ?i1 = ?i1" using cr'_nth [OF v(2)] nes0i1 ne01 i1fix by auto
        moreover have "lk' ! (remap ! ?i0)" "lk' ! (remap ! ?i1)"
          using lk'_nth [OF r0] lk'_nth [OF r1] by simp_all
        ultimately show ?thesis unfolding d using ji im by simp
      qed
      then show "j < m" "cr' ! v0 ?d = v1 ?d" "cr' ! v1 ?d = v1 ?d" "lk' ! (remap ! v0 ?d)" "lk' ! (remap ! v1 ?d)"
        by blast+
    qed
  qed
qed


lemma performEdgeCollapses_loop_inv:
  assumes "collapse_inv n m remap cs order st"
    and "\<And>i. i < m \<Longrightarrow> v0 (cs ! (order ! i)) < n \<and> v1 (cs ! (order ! i)) < n \<and>
              remap ! v0 (cs ! (order ! i)) \<noteq> remap ! v1 (cs ! (order ! i))"
    and "\<And>j. j < n \<Longrightarrow> remap ! j \<le> j"
    and "wedge_inv remap n n wedge"
    and "\<And>v. v < n \<Longrightarrow> kind ! v = Kind_Seam \<Longrightarrow> wedge ! v \<noteq> v"
  shows "collapse_inv n m remap cs order
           (performEdgeCollapses_loop cs m order remap wedge kind goal limit i st)"
  using assms
proof (induction cs m order remap wedge kind goal limit i st rule: performEdgeCollapses_loop.induct)
  case (1 cs m order remap wedge kind goal limit i st)
  note simps = performEdgeCollapses_loop.simps [of cs m order remap wedge kind goal limit i st]
  note inv = "1.prems"(1) and C = "1.prems"(2) and R = "1.prems"(3) and W = "1.prems"(4)
    and S = "1.prems"(5)
  show ?case
  proof (cases "i < m")
    case False
    then have "performEdgeCollapses_loop cs m order remap wedge kind goal limit i st = st"
      unfolding simps by simp
    then show ?thesis using inv by simp
  next
    case im: True
    let ?c = "cs ! (order ! i)"
    show ?thesis
    proof (cases "float_gt (errorui ?c) limit \<or> goal \<le> st_triangle_collapses st")
      case True
      then have "performEdgeCollapses_loop cs m order remap wedge kind goal limit i st = st"
        unfolding simps using im by (auto simp: Let_def)
      then show ?thesis using inv by simp
    next
      case False
      then have s1: "\<not> float_gt (errorui ?c) limit" and s2: "\<not> goal \<le> st_triangle_collapses st"
        by simp_all
      show ?thesis
      proof (cases "st_locked st ! (remap ! v0 ?c) \<or> st_locked st ! (remap ! v1 ?c)")
        case True
        have "performEdgeCollapses_loop cs m order remap wedge kind goal limit i st =
              performEdgeCollapses_loop cs m order remap wedge kind goal limit (i + 1) st"
          unfolding simps using im s1 s2 True by (simp add: Let_def)
        moreover have "collapse_inv n m remap cs order
            (performEdgeCollapses_loop cs m order remap wedge kind goal limit (i + 1) st)"
          by (rule "1.IH"(1) [OF im refl s1 s2 True inv C R W S])
        ultimately show ?thesis by simp
      next
        case False
        have eq: "performEdgeCollapses_loop cs m order remap wedge kind goal limit i st =
              performEdgeCollapses_loop cs m order remap wedge kind goal limit (i + 1)
                (apply_collapse remap wedge kind i ?c st)"
          unfolding simps using im s1 s2 False by (simp add: Let_def)
        from C [OF im] have v: "v0 ?c < n" "v1 ?c < n" "remap ! v0 ?c \<noteq> remap ! v1 ?c" by simp_all
        have a: "collapse_inv n m remap cs order (apply_collapse remap wedge kind i ?c st)"
          by (rule apply_collapse_inv [OF inv refl im v R W S]) (use False in simp_all)
        have "collapse_inv n m remap cs order
            (performEdgeCollapses_loop cs m order remap wedge kind goal limit (i + 1)
                (apply_collapse remap wedge kind i ?c st))"
          by (rule "1.IH"(2) [OF im refl s1 s2 False a C R W S])
        with eq show ?thesis by simp
      qed
    qed
  qed
qed

lemma performEdgeCollapses_inv:
  assumes C: "\<And>i. i < m \<Longrightarrow> v0 (cs ! (order ! i)) < n \<and> v1 (cs ! (order ! i)) < n \<and>
              remap ! v0 (cs ! (order ! i)) \<noteq> remap ! v1 (cs ! (order ! i))"
    and R: "\<And>j. j < n \<Longrightarrow> remap ! j \<le> j"
    and W: "wedge_inv remap n n wedge"
    and S: "\<And>v. v < n \<Longrightarrow> kind ! v = Kind_Seam \<Longrightarrow> wedge ! v \<noteq> v"
  shows "collapse_inv n m remap cs order
           (performEdgeCollapses [0..<n] (replicate n False) vq cs m order remap wedge kind goal limit)"
  unfolding performEdgeCollapses_def
  by (rule performEdgeCollapses_loop_inv [OF _ C R W S]) (simp_all add: collapse_inv_def)


subsection \<open>A pass of the exact simplifier\<close>

lemma rank_collapse_ends:
  "(v0 (rank_collapse vp vq remap c) = v0 c \<and> v1 (rank_collapse vp vq remap c) = v1 c) \<or>
   (v0 (rank_collapse vp vq remap c) = v1 c \<and> v1 (rank_collapse vp vq remap c) = v0 c)"
  by (simp add: rank_collapse_def Let_def)

lemma simplify_pass_decreases:
  assumes inv: "simplify_inv n N (result, rc, loop, vq, co)"
    and R: "\<And>j. j < n \<Longrightarrow> remap ! j \<le> j"
    and W: "wedge_inv remap n n wedge"
    and S: "\<And>v. v < n \<Longrightarrow> kind ! v = Kind_Seam \<Longrightarrow> wedge ! v \<noteq> v"
    and pass: "simplify_pass n remap wedge kind vp target target_error (result, rc, loop, vq, co) =
                 Some (result', rc', loop', vq', co')"
  shows "simplify_inv n N (result', rc', loop', vq', co') \<and> rc' < rc \<and>
         distinct_corners result' rc' \<and> length result' = length result"
proof -
  from inv have val: "valid_mesh result rc n" and rcN: "rc \<le> N" and lco: "length co = N"
    by (simp_all add: simplify_inv_def)
  from val obtain k where k: "rc = 3 * k" by (auto simp: valid_mesh_def elim: dvdE dest: mod_0_imp_dvd)
  from val have rlen: "rc \<le> length result" and idx: "\<And>i. i < rc \<Longrightarrow> result ! i < n"
    and n32: "n < 2 ^ 32" and rc32: "rc < 2 ^ 32"
    by (auto simp: valid_mesh_def)
  define ec where "ec = pickEdgeCollapses result rc remap kind loop"
  define m where "m = length ec"
  define ranked where "ranked = rankEdgeCollapses ec m vp vq remap"
  define order where "order = sortEdgeCollapses co ranked m"
  define goal where "goal = (rc - target) div 3"
  define limit where "limit = pass_error_limit ranked m order (goal div 2) target_error"
  define st where "st = performEdgeCollapses [0..<n] (replicate n False) vq ranked m order remap
      wedge kind goal limit"
  from pass have ecne: "ec \<noteq> []" and e0: "st_edge_collapses st \<noteq> 0"
    and res: "remapIndexBuffer result rc (st_remap st) = (result', rc')"
    by (auto simp: simplify_pass_def Let_def ec_def [symmetric] m_def [symmetric]
        ranked_def [symmetric] order_def [symmetric] goal_def [symmetric] limit_def [symmetric]
        st_def [symmetric] split: if_splits prod.splits)
  from ecne have m0: "m \<noteq> 0" by (simp add: m_def)
  from pickEdgeCollapses_ok [of result k remap kind loop]
  have ok: "pick_ok result rc remap ec" and mle: "m \<le> rc"
    by (simp_all add: ec_def m_def k)
  have ends: "v0 c < n \<and> v1 c < n" if "buffer_edge result rc (v0 c) (v1 c)" for c :: Collapse
  proof -
    from that obtain j e where j: "3 * j + 2 < rc" and e: "e < 3"
      and ab: "(v0 c = result ! (3 * j + e) \<and> v1 c = result ! (3 * j + next3 e)) \<or>
               (v1 c = result ! (3 * j + e) \<and> v0 c = result ! (3 * j + next3 e))"
      unfolding buffer_edge_def by blast
    from next3_cases [OF e] j have "3 * j + e < rc" "3 * j + next3 e < rc" by auto
    then have "result ! (3 * j + e) < n" "result ! (3 * j + next3 e) < n" using idx by blast+
    with ab show ?thesis by auto
  qed
  have rk: "buffer_edge result rc (v0 (ranked ! i)) (v1 (ranked ! i)) \<and>
            remap ! v0 (ranked ! i) \<noteq> remap ! v1 (ranked ! i)" if "i < m" for i
  proof -
    have "ranked ! i = rank_collapse vp vq remap (ec ! i)"
      using rankEdgeCollapses_nth [of m ec vp vq remap] that by (simp add: ranked_def m_def)
    moreover have "buffer_edge result rc (v0 (ec ! i)) (v1 (ec ! i))"
      "remap ! v0 (ec ! i) \<noteq> remap ! v1 (ec ! i)"
      using ok that by (auto simp: pick_ok_def m_def)
    ultimately show ?thesis
      using rank_collapse_ends [of vp vq remap "ec ! i"] buffer_edge_sym by auto
  qed
  have m32: "m < 2 ^ 32" using mle rc32 by simp
  have mco: "m \<le> length co" using mle rcN lco by simp
  have ord: "order ! p < m" if "p < m" for p
    using sortEdgeCollapses_nth [OF m32 mco that, of ranked] by (auto simp: order_def)
  have lord: "length order = N"
    using sortEdgeCollapses_pos(1) [OF m32 mco, of ranked] lco by (simp add: order_def)
  have C: "v0 (ranked ! (order ! i)) < n \<and> v1 (ranked ! (order ! i)) < n \<and>
           remap ! v0 (ranked ! (order ! i)) \<noteq> remap ! v1 (ranked ! (order ! i))" if "i < m" for i
    using rk [OF ord [OF that]] ends by blast
  have cinv: "collapse_inv n m remap ranked order st"
    unfolding st_def by (rule performEdgeCollapses_inv [OF C R W S])
  then have ap: "st_applied st \<noteq> []" using e0 by (auto simp: collapse_inv_def)
  then obtain i where i: "i \<in> set (st_applied st)" by (cases "st_applied st") auto
  let ?c = "ranked ! (order ! i)"
  from cinv i have im: "i < m" and c0: "st_remap st ! v0 ?c = v1 ?c" and c1: "st_remap st ! v1 ?c = v1 ?c"
    unfolding collapse_inv_def by blast+
  from rk [OF ord [OF im]] have be: "buffer_edge result (3 * k) (v0 ?c) (v1 ?c)" by (simp add: k)
  from buffer_edge_degenerate [OF be, of "st_remap st"] c0 c1
  have deg: "\<exists>j<k. degenerate (st_remap st) result j" by simp
  from cinv have rng: "\<And>v. v < n \<Longrightarrow> st_remap st ! v < n" unfolding collapse_inv_def by blast
  from remapIndexBuffer_inv [of k result "st_remap st"] rlen res
  have ci: "compact_inv (st_remap st) result k (result', rc')" by (simp add: k)
  then have l': "length result' = length result" and w: "rc' \<le> 3 * k" "3 dvd rc'"
    and src: "\<And>p. p < rc' \<Longrightarrow> \<exists>q<3 * k. result' ! p = st_remap st ! (result ! q)"
    and dc: "distinct_corners result' rc'" and lt: "rc' < 3 * k"
    using deg unfolding compact_inv_def by auto
  have idx': "result' ! p < n" if "p < rc'" for p
  proof -
    from src [OF that] obtain q where "q < 3 * k" "result' ! p = st_remap st ! (result ! q)" by blast
    then show ?thesis using rng idx k by simp
  qed
  have val': "valid_mesh result' rc' n"
    unfolding valid_mesh_def using w l' rlen k idx' n32 rc32 by (auto simp: dvd_eq_mod_eq_0)
  have co': "co' = order" using pass
    by (auto simp: simplify_pass_def Let_def ec_def [symmetric] m_def [symmetric]
        ranked_def [symmetric] order_def [symmetric] split: if_splits prod.splits)
  show ?thesis
    using val' lt k rcN lord co' dc l' by (simp add: simplify_inv_def)
qed


subsection \<open>Grid coordinates of the sloppy simplifier\<close>











end
